theory Spec2Isabelle
  imports Complex_Main "HOL-Library.AList"
begin

section \<open>Board state of game_board.py\<close>

text \<open>
  Python integers are unbounded, so moves, players and board dimensions are \<open>int\<close>.
  The dictionary \<open>states\<close> is an association list in insertion order, written with
  \<open>AList.update\<close> (an existing key keeps its position, a new key goes to the end) and
  read with \<open>map_of\<close>. The deque \<open>states_sequence\<close> is a list, most recent first.
  Exceptions are values of type \<open>error\<close>.
\<close>

datatype error = PyException | ValueError | KeyError | IndexError | ZeroDivisionError

record board =
  width :: int
  height :: int
  n_in_row :: int
  states :: "(int \<times> int) list"
  states_sequence :: "(int \<times> int) list"
  current_player :: int
  availables :: "int list"
  last_move :: int

definition players :: "int list" where
  "players = [1, 2]"

definition feature_planes :: nat where
  "feature_planes = 8"

text \<open>Indexing a Python list with an integer: negative indices count from the end.\<close>

definition py_nth :: "'a list \<Rightarrow> int \<Rightarrow> error + 'a" where
  "py_nth xs i =
     (if 0 \<le> i \<and> i < int (length xs) then Inr (xs ! nat i)
      else if - int (length xs) \<le> i \<and> i < 0 then Inr (xs ! nat (int (length xs) + i))
      else Inl IndexError)"

text \<open>\<open>deque(maxlen=feature_planes).appendleft\<close>: a full deque drops its right end.\<close>

definition appendleft :: "int \<times> int \<Rightarrow> (int \<times> int) list \<Rightarrow> (int \<times> int) list" where
  "appendleft x q = take feature_planes (x # q)"

text \<open>
  \<open>Board.__init__\<close>. The attributes \<open>current_player\<close>, \<open>availables\<close> and
  \<open>last_move\<close> do not exist before \<open>init_board\<close>, which sets all three; the
  record holds placeholders for them until then.
\<close>

definition Board :: "int \<Rightarrow> int \<Rightarrow> int \<Rightarrow> board" where
  "Board w h n =
     \<lparr>width = w, height = h, n_in_row = n, states = [],
      states_sequence = replicate feature_planes (-1, -1),
      current_player = 0, availables = [], last_move = -1\<rparr>"

definition init_board :: "board \<Rightarrow> int \<Rightarrow> error + board" where
  "init_board b start_player =
     (if width b < n_in_row b \<or> height b < n_in_row b then Inl PyException
      else case py_nth players start_player of
             Inl e \<Rightarrow> Inl e
           | Inr p \<Rightarrow>
               Inr (b\<lparr>current_player := p,
                      availables := [0 .. width b * height b - 1],
                      states := [],
                      last_move := -1,
                      states_sequence := replicate feature_planes (-1, -1)\<rparr>))"

definition move_to_location :: "board \<Rightarrow> int \<Rightarrow> error + int list" where
  "move_to_location b move =
     (if width b = 0 then Inl ZeroDivisionError
      else Inr [move div width b, move mod width b])"

definition location_to_move :: "board \<Rightarrow> int list \<Rightarrow> int" where
  "location_to_move b location =
     (case location of
        [h, w] \<Rightarrow>
          (let move = h * width b + w
           in if \<not> (0 \<le> move \<and> move < width b * height b) then -1 else move)
      | _ \<Rightarrow> -1)"

text \<open>
  \<open>do_move\<close> mutates the board statement by statement, and \<open>list.remove\<close> raises
  ValueError when the move is not in \<open>availables\<close>. The board as it stands when the
  exception leaves the method is part of the result: \<open>Inl (e, b')\<close>.
\<close>

definition do_move :: "board \<Rightarrow> int \<Rightarrow> (error \<times> board) + board" where
  "do_move b move =
     (let b1 = b\<lparr>states := AList.update move (current_player b) (states b)\<rparr>;
          b2 = b1\<lparr>states_sequence :=
                    appendleft (move, current_player b1) (states_sequence b1)\<rparr>
      in if move \<notin> set (availables b2) then Inl (ValueError, b2)
         else
           (let b3 = b2\<lparr>availables := remove1 move (availables b2)\<rparr>;
                b4 = b3\<lparr>current_player :=
                          (if current_player b3 = players ! 1 then players ! 0
                           else players ! 1)\<rparr>
            in Inr (b4\<lparr>last_move := move\<rparr>)))"

text \<open>A caller applying a sequence of moves; the first exception ends it.\<close>

fun do_moves :: "board \<Rightarrow> int list \<Rightarrow> (error \<times> board) + board" where
  "do_moves b [] = Inr b"
| "do_moves b (m # ms) =
     (case do_move b m of Inl e \<Rightarrow> Inl e | Inr b' \<Rightarrow> do_moves b' ms)"

text \<open>The board object after a call of \<open>do_move\<close>, however the call ended.\<close>

definition after_move :: "board \<Rightarrow> int \<Rightarrow> board" where
  "after_move b m = (case do_move b m of Inr b' \<Rightarrow> b' | Inl (e, b') \<Rightarrow> b')"

definition keys :: "board \<Rightarrow> int set" where
  "keys b = fst ` set (states b)"

text \<open>
  The invariant of a board between calls: \<open>states\<close> is a dictionary (distinct keys),
  \<open>availables\<close> has no duplicates, occupied and available cells partition
  \<open>{0 .. width * height - 1}\<close>, and the stones and the player to move are 1 or 2.
\<close>

definition board_inv :: "board \<Rightarrow> bool" where
  "board_inv b \<longleftrightarrow>
     distinct (map fst (states b)) \<and>
     distinct (availables b) \<and>
     keys b \<inter> set (availables b) = {} \<and>
     keys b \<union> set (availables b) = {0 .. width b * height b - 1} \<and>
     (last_move b = -1 \<or> last_move b \<in> keys b) \<and>
     current_player b \<in> {1, 2} \<and>
     snd ` set (states b) \<subseteq> {1, 2} \<and>
     length (states_sequence b) = feature_planes"

section \<open>Rule engine\<close>

text \<open>\<open>states.get(k, d)\<close>.\<close>

definition states_get :: "board \<Rightarrow> int \<Rightarrow> int \<Rightarrow> int" where
  "states_get b k d = (case map_of (states b) k of None \<Rightarrow> d | Some v \<Rightarrow> v)"

text \<open>
  \<open>moved = list(set(range(width * height)) - set(self.availables))\<close>. The order in
  which Python lists the elements of a set is not specified, so \<open>has_a_winner\<close> and
  \<open>game_end\<close> take the list \<open>ms\<close> of played cells as an argument; \<open>moved\<close> is that
  list in ascending order.
\<close>

definition moved :: "board \<Rightarrow> int list" where
  "moved b = filter (\<lambda>m. m \<notin> set (availables b)) [0 .. width b * height b - 1]"

text \<open>\<open>all(states.get(m + i * step, -1) == player for i in range(n))\<close>.\<close>

definition run_from :: "board \<Rightarrow> int \<Rightarrow> int \<Rightarrow> int \<Rightarrow> bool" where
  "run_from b m step player =
     list_all (\<lambda>i. states_get b (m + i * step) (-1) = player) [0 .. n_in_row b - 1]"

text \<open>
  The loop \<open>for m in moved\<close> of \<open>has_a_winner\<close>: the player of the first cell that
  starts a run, or \<open>None\<close> when the loop ends without returning.
\<close>

fun scan_moved :: "board \<Rightarrow> int list \<Rightarrow> error + int option" where
  "scan_moved b [] = Inr None"
| "scan_moved b (m # ms) =
     (if width b = 0 then Inl ZeroDivisionError
      else
        (let h = m div width b; w = m mod width b
         in case map_of (states b) m of
              None \<Rightarrow> Inl KeyError
            | Some player \<Rightarrow>
                if w \<le> width b - n_in_row b \<and> run_from b m 1 player
                then Inr (Some player)
                else if h \<le> height b - n_in_row b \<and> run_from b m (width b) player
                then Inr (Some player)
                else if w \<le> width b - n_in_row b \<and> h \<le> height b - n_in_row b
                        \<and> run_from b m (width b + 1) player
                then Inr (Some player)
                else if w \<ge> n_in_row b - 1 \<and> h \<le> height b - n_in_row b
                        \<and> run_from b m (width b - 1) player
                then Inr (Some player)
                else scan_moved b ms))"

definition cell_symbol :: "board \<Rightarrow> int \<Rightarrow> char" where
  "cell_symbol b pos =
     (case map_of (states b) pos of
        None \<Rightarrow> CHR ''.''
      | Some p \<Rightarrow> if p = players ! 0 then CHR ''X'' else CHR ''O'')"

text \<open>
  The two \<open>while\<close> loops of \<open>get_line\<close> walk from a cell in steps of \<open>(sx, sy)\<close>
  while the cell is on the board, and collect one symbol per cell. \<open>get_line\<close> is
  only called with the four directions of \<open>check_forbidden_move\<close>; with the step
  \<open>(0, 0)\<close>, for which the Python loop would not end, \<open>extend\<close> is the empty walk.
\<close>

function extend :: "board \<Rightarrow> int \<Rightarrow> int \<Rightarrow> int \<Rightarrow> int \<Rightarrow> string" where
  "extend b nx ny sx sy =
     (if 0 \<le> nx \<and> nx < width b \<and> 0 \<le> ny \<and> ny < height b \<and> (sx \<noteq> 0 \<or> sy \<noteq> 0)
      then cell_symbol b (ny * width b + nx) # extend b (nx + sx) (ny + sy) sx sy
      else [])"
  by pat_completeness auto
termination
  by (relation "measure (\<lambda>(b, nx, ny, sx, sy).
        if 0 < sx then nat (width b - nx)
        else if sx < 0 then nat (nx + 1)
        else if 0 < sy then nat (height b - ny)
        else nat (ny + 1))") auto

definition get_line :: "board \<Rightarrow> int \<Rightarrow> int \<Rightarrow> int \<Rightarrow> error + string" where
  "get_line b move dx dy =
     (if width b = 0 then Inl ZeroDivisionError
      else
        (let x = move mod width b; y = move div width b;
             line = rev (extend b (x - dx) (y - dy) (- dx) (- dy))
         in case map_of (states b) move of
              None \<Rightarrow> Inl KeyError
            | Some p \<Rightarrow>
                Inr (line @ [if p = players ! 0 then CHR ''X'' else CHR ''O'']
                       @ extend b (x + dx) (y + dy) dx dy)))"

text \<open>\<open>pat in line\<close>, for strings.\<close>

fun contains :: "string \<Rightarrow> string \<Rightarrow> bool" where
  "contains pat [] = (pat = [])"
| "contains pat (c # cs) = (take (length pat) (c # cs) = pat \<or> contains pat cs)"

text \<open>
  \<open>len(re.findall(pattern, line))\<close>. Every pattern of \<open>check_forbidden_move\<close> is a
  sequence of \<open>\.\<close>, \<open>X\<close> and \<open>O\<close>, which matches exactly one text, so \<open>pat\<close> is that
  text; \<open>findall\<close> scans from the left and resumes after the end of each match.
\<close>

function count_pattern :: "string \<Rightarrow> string \<Rightarrow> nat" where
  "count_pattern [] pat = 0"
| "count_pattern (c # cs) pat =
     (if take (length pat) (c # cs) = pat
      then 1 + count_pattern (drop (length pat - 1) cs) pat
      else count_pattern cs pat)"
  by pat_completeness auto
termination
  by (relation "measure (\<lambda>(line, pat). length line)") auto

text \<open>The loop \<open>for dx, dy in directions\<close> of \<open>check_forbidden_move\<close> and its tail.\<close>

fun directions_scan ::
  "board \<Rightarrow> int \<Rightarrow> char \<Rightarrow> (int \<times> int) list \<Rightarrow> nat \<Rightarrow> nat \<Rightarrow> error + bool" where
  "directions_scan b move target [] open_three open_four =
     Inr (if open_four \<ge> 2 then True else if open_three \<ge> 2 then True else False)"
| "directions_scan b move target ((dx, dy) # ds) open_three open_four =
     (case get_line b move dx dy of
        Inl e \<Rightarrow> Inl e
      | Inr line \<Rightarrow>
          if contains (replicate (nat (n_in_row b + 1)) target) line then Inr True
          else
            (let open_four' = open_four
                   + count_pattern line (''.'' @ replicate 4 target @ ''.'');
                 open_three' = open_three
                   + count_pattern line (''.'' @ replicate 3 target @ ''.'')
                   + count_pattern line (''.'' @ replicate 2 target @ ''.'' @ [target] @ ''.'')
                   + count_pattern line (''.'' @ [target] @ ''.'' @ replicate 2 target @ ''.'')
             in directions_scan b move target ds open_three' open_four'))"

definition check_forbidden_move :: "board \<Rightarrow> int \<Rightarrow> int \<Rightarrow> error + bool" where
  "check_forbidden_move b move player =
     directions_scan b move (if player = players ! 0 then CHR ''X'' else CHR ''O'')
       [(1, 0), (0, 1), (1, 1), (1, -1)] 0 0"

text \<open>
  The last part of \<open>has_a_winner\<close>: whether the last move, if player 1 made it, is
  forbidden.
\<close>

definition forbidden_violation :: "board \<Rightarrow> error + bool" where
  "forbidden_violation b =
     (if last_move b \<noteq> -1 then
        (case map_of (states b) (last_move b) of
           None \<Rightarrow> Inl KeyError
         | Some player \<Rightarrow>
             if player = players ! 0 then check_forbidden_move b (last_move b) player
             else Inr False)
      else Inr False)"

definition has_a_winner :: "board \<Rightarrow> int list \<Rightarrow> error + bool \<times> int" where
  "has_a_winner b ms =
     (if int (length ms) < n_in_row b then Inr (False, -1)
      else case scan_moved b ms of
             Inl e \<Rightarrow> Inl e
           | Inr (Some player) \<Rightarrow> Inr (True, player)
           | Inr None \<Rightarrow>
               (case forbidden_violation b of
                  Inl e \<Rightarrow> Inl e
                | Inr True \<Rightarrow> Inr (True, players ! 1)
                | Inr False \<Rightarrow> Inr (False, -1)))"

definition game_end :: "board \<Rightarrow> int list \<Rightarrow> error + bool \<times> int" where
  "game_end b ms =
     (case has_a_winner b ms of
        Inl e \<Rightarrow> Inl e
      | Inr (end, winner) \<Rightarrow>
          if end then Inr (True, winner)
          else if length (availables b) = 0 then Inr (True, -1)
          else Inr (False, -1))"

section \<open>Runs of stones on the board\<close>

text \<open>
  The cell in row \<open>r\<close> and column \<open>c\<close>, and a run of \<open>k\<close> stones of player \<open>p\<close> that
  starts there and goes in direction \<open>(dr, dc)\<close>: horizontal \<open>(0, 1)\<close>, vertical
  \<open>(1, 0)\<close>, diagonal \<open>(1, 1)\<close> or anti-diagonal \<open>(1, -1)\<close>.
\<close>

definition on_board :: "board \<Rightarrow> int \<Rightarrow> int \<Rightarrow> bool" where
  "on_board b r c \<longleftrightarrow> 0 \<le> r \<and> r < height b \<and> 0 \<le> c \<and> c < width b"

definition cell :: "board \<Rightarrow> int \<Rightarrow> int \<Rightarrow> int" where
  "cell b r c = r * width b + c"

definition line_dirs :: "(int \<times> int) list" where
  "line_dirs = [(0, 1), (1, 0), (1, 1), (1, -1)]"

definition run_at :: "board \<Rightarrow> int \<Rightarrow> int \<Rightarrow> int \<Rightarrow> int \<Rightarrow> int \<Rightarrow> int \<Rightarrow> bool" where
  "run_at b k r c dr dc p =
     list_all (\<lambda>i. on_board b (r + i * dr) (c + i * dc) \<and>
                    map_of (states b) (cell b (r + i * dr) (c + i * dc)) = Some p)
       [0 .. k - 1]"

definition has_run :: "board \<Rightarrow> int \<Rightarrow> int \<Rightarrow> bool" where
  "has_run b k p =
     list_ex (\<lambda>r. list_ex (\<lambda>c. list_ex (\<lambda>(dr, dc). run_at b k r c dr dc p) line_dirs)
                      [0 .. width b - 1])
       [0 .. height b - 1]"

text \<open>
  The four tests that \<open>has_a_winner\<close> makes at a played cell \<open>m\<close>, taken together:
  each of them returns \<open>(True, player)\<close>.
\<close>

definition starts_run :: "board \<Rightarrow> int \<Rightarrow> int \<Rightarrow> bool" where
  "starts_run b m player \<longleftrightarrow>
     (m mod width b \<le> width b - n_in_row b \<and> run_from b m 1 player) \<or>
     (m div width b \<le> height b - n_in_row b \<and> run_from b m (width b) player) \<or>
     (m mod width b \<le> width b - n_in_row b \<and> m div width b \<le> height b - n_in_row b
        \<and> run_from b m (width b + 1) player) \<or>
     (m mod width b \<ge> n_in_row b - 1 \<and> m div width b \<le> height b - n_in_row b
        \<and> run_from b m (width b - 1) player)"

text \<open>The board after a sequence of \<open>do_move\<close> calls.\<close>

definition play :: "board \<Rightarrow> int list \<Rightarrow> board" where
  "play b ms = fold (\<lambda>m b. after_move b m) ms b"

text \<open>The default board, 15 by 15 with five in a row, after \<open>init_board()\<close>.\<close>

definition board15 :: board where
  "board15 = (Board 15 15 5)\<lparr>current_player := 1, availables := [0 .. 224]\<rparr>"

text \<open>
  A game on the default board in which player 1 (moves 0, 1, 2, 4, 5 and then 3) completes
  six stones in row 0, and player 2 plays 30, 32, 34, 36, 38.
\<close>

definition before_overline :: board where
  "before_overline = play board15 [0, 30, 1, 32, 2, 34, 4, 36, 5, 38]"

definition overline_board :: board where
  "overline_board = play board15 [0, 30, 1, 32, 2, 34, 4, 36, 5, 38, 3]"

text \<open>A 5 by 5 board with five in a row, after \<open>init_board()\<close>, and one filled without a run.\<close>

definition board5 :: board where
  "board5 = (Board 5 5 5)\<lparr>current_player := 1, availables := [0 .. 24]\<rparr>"

definition draw_board :: board where
  "draw_board = play board5
     [0, 2, 1, 3, 4, 5, 7, 6, 8, 9, 10, 12, 11, 13, 14, 15, 17, 16, 18, 19, 20, 22, 21, 24, 23]"




section \<open>Tensor encoder\<close>

text \<open>
  The array \<open>square_state\<close> is a list of planes, a plane a list of rows, a row a list
  of entries; the entries are the floats 0.0 and 1.0 only, written as reals.
  \<open>np.zeros\<close> raises ValueError for a negative dimension.
\<close>

type_synonym plane = "real list list"

definition np_zeros :: "int \<Rightarrow> int \<Rightarrow> int \<Rightarrow> error + plane list" where
  "np_zeros k w h =
     (if k < 0 \<or> w < 0 \<or> h < 0 then Inl ValueError
      else Inr (replicate (nat k) (replicate (nat w) (replicate (nat h) 0))))"

text \<open>
  An index into an axis of length \<open>n\<close>: numpy counts a negative index from the end and
  raises IndexError outside \<open>[-n, n)\<close>.
\<close>

definition np_index :: "nat \<Rightarrow> int \<Rightarrow> error + nat" where
  "np_index n i =
     (if 0 \<le> i \<and> i < int n then Inr (nat i)
      else if - int n \<le> i \<and> i < 0 then Inr (nat (int n + i))
      else Inl IndexError)"

text \<open>
  \<open>//\<close> and \<open>%\<close> on an integer array: numpy yields 0 for a zero divisor (with a
  warning) where Python raises ZeroDivisionError.
\<close>

definition np_floordiv :: "int \<Rightarrow> int \<Rightarrow> int" where
  "np_floordiv a d = (if d = 0 then 0 else a div d)"

definition np_mod :: "int \<Rightarrow> int \<Rightarrow> int" where
  "np_mod a d = (if d = 0 then 0 else a mod d)"

text \<open>\<open>square_state[i][r, c] = v\<close> for integers \<open>r\<close> and \<open>c\<close>.\<close>

definition set_cell :: "plane list \<Rightarrow> nat \<Rightarrow> int \<Rightarrow> int \<Rightarrow> real \<Rightarrow> error + plane list" where
  "set_cell sq i r c v =
     (if length sq \<le> i then Inl IndexError
      else case np_index (length (sq ! i)) r of
             Inl e \<Rightarrow> Inl e
           | Inr x \<Rightarrow>
               (case np_index (length (sq ! i ! x)) c of
                  Inl e \<Rightarrow> Inl e
                | Inr y \<Rightarrow> Inr (sq[i := (sq ! i)[x := (sq ! i ! x)[y := v]]])))"

text \<open>
  \<open>square_state[i][moves // self.width, moves % self.height] = v\<close> for an array of
  moves: one assignment per move.
\<close>

fun set_cells :: "board \<Rightarrow> plane list \<Rightarrow> nat \<Rightarrow> int list \<Rightarrow> real \<Rightarrow> error + plane list" where
  "set_cells b sq i [] v = Inr sq"
| "set_cells b sq i (m # ms) v =
     (case set_cell sq i (np_floordiv m (width b)) (np_mod m (height b)) v of
        Inl e \<Rightarrow> Inl e
      | Inr sq' \<Rightarrow> set_cells b sq' i ms v)"

text \<open>The loop \<open>for i in range(self.feature_planes)\<close> of \<open>current_state\<close>.\<close>

fun fill_planes ::
  "board \<Rightarrow> plane list \<Rightarrow> int list \<Rightarrow> int list \<Rightarrow> nat list \<Rightarrow> error + plane list" where
  "fill_planes b sq move_oppo move_curr [] = Inr sq"
| "fill_planes b sq move_oppo move_curr (i # is) =
     (case set_cells b sq i (if i mod 2 = 0 then move_oppo else move_curr) 1 of
        Inl e \<Rightarrow> Inl e
      | Inr sq' \<Rightarrow> fill_planes b sq' move_oppo move_curr is)"

text \<open>
  The loop \<open>for i in range(0, len(self.states_sequence) - 2, 2)\<close>. Both branches of
  its inner test \<open>i % 2 == 0\<close> are the same assignment.
\<close>

fun remove_older :: "board \<Rightarrow> plane list \<Rightarrow> nat list \<Rightarrow> error + plane list" where
  "remove_older b sq [] = Inr sq"
| "remove_older b sq (i # is) =
     (case states_sequence b ! i of
        (move, player) \<Rightarrow>
          if player \<noteq> -1 then
            (if i < feature_planes then
               (if width b = 0 \<or> height b = 0 then Inl ZeroDivisionError
                else case set_cell sq i (move div width b) (move mod height b) 0 of
                       Inl e \<Rightarrow> Inl e
                     | Inr sq' \<Rightarrow> remove_older b sq' is)
             else remove_older b sq is)
          else remove_older b sq is)"

definition current_state :: "board \<Rightarrow> error + plane list" where
  "current_state b =
     (case np_zeros (int feature_planes + 1) (width b) (height b) of
        Inl e \<Rightarrow> Inl e
      | Inr square_state \<Rightarrow>
          (case (if states b \<noteq> [] then
                   (let move_curr = map fst (filter (\<lambda>(m, p). p = current_player b) (states b));
                        move_oppo = map fst (filter (\<lambda>(m, p). p \<noteq> current_player b) (states b))
                    in case fill_planes b square_state move_oppo move_curr
                              [0 ..< feature_planes] of
                         Inl e \<Rightarrow> Inl e
                       | Inr sq \<Rightarrow>
                           remove_older b sq
                             (filter (\<lambda>i. i mod 2 = 0) [0 ..< length (states_sequence b) - 2]))
                 else Inr square_state) of
             Inl e \<Rightarrow> Inl e
           | Inr sq \<Rightarrow>
               Inr (map rev
                 (if length (states b) mod 2 = 0
                  then sq[feature_planes :=
                            replicate (nat (width b)) (replicate (nat (height b)) 1)]
                  else sq))))"

text \<open>The shape of an array, and of the array a call returns.\<close>

definition has_shape :: "plane list \<Rightarrow> nat \<Rightarrow> nat \<Rightarrow> nat \<Rightarrow> bool" where
  "has_shape sq k r c \<longleftrightarrow>
     length sq = k \<and> list_all (\<lambda>pl. length pl = r \<and> list_all (\<lambda>row. length row = c) pl) sq"

definition returns_shape :: "error + plane list \<Rightarrow> nat \<Rightarrow> nat \<Rightarrow> nat \<Rightarrow> bool" where
  "returns_shape res k r c \<longleftrightarrow> (case res of Inl e \<Rightarrow> False | Inr sq \<Rightarrow> has_shape sq k r c)"

text \<open>Plane \<open>i\<close> of the array a call returns.\<close>

definition result_plane :: "error + plane list \<Rightarrow> nat \<Rightarrow> plane option" where
  "result_plane res i = (case res of Inl e \<Rightarrow> None | Inr sq \<Rightarrow> Some (sq ! i))"

text \<open>Boards after \<open>init_board()\<close>: 6 wide and 5 high, 5 wide and 6 high.\<close>

definition board65 :: board where
  "board65 = (Board 6 5 5)\<lparr>current_player := 1, availables := [0 .. 29]\<rparr>"

definition board56 :: board where
  "board56 = (Board 5 6 5)\<lparr>current_player := 1, availables := [0 .. 29]\<rparr>"

text \<open>
  Where \<open>current_state\<close> puts move \<open>m\<close> before it reverses the rows, and when its
  row index is inside the first axis of a plane (of length \<open>width\<close>).
\<close>

definition at_pos :: "board \<Rightarrow> int \<Rightarrow> nat \<Rightarrow> nat \<Rightarrow> bool" where
  "at_pos b m x y \<longleftrightarrow> nat (m div width b) = x \<and> nat (m mod height b) = y"

definition row_ok :: "board \<Rightarrow> int \<Rightarrow> bool" where
  "row_ok b m \<longleftrightarrow> 0 \<le> m div width b \<and> m div width b < width b"

text \<open>
  The invariant of the history: each entry is the pair \<open>(-1, -1)\<close> that fills the deque
  at the start, or a played move with its player.
\<close>

definition history_inv :: "board \<Rightarrow> bool" where
  "history_inv b \<longleftrightarrow>
     list_all (\<lambda>(m, p). (m = -1 \<and> p = -1) \<or> (m \<in> keys b \<and> p \<in> {1, 2}))
       (states_sequence b)"

text \<open>
  The entry of plane \<open>i\<close> that belongs to cell \<open>m\<close> in the returned (row-reversed)
  array of a square board, and its value: in an odd plane 1 exactly at the stones of the
  player to move; in an even plane 1 exactly at the other stones, except that the move
  of history entry \<open>i\<close> is cleared when \<open>i < len(states_sequence) - 2\<close> and the entry
  is a played move.
\<close>

definition expected_plane :: "board \<Rightarrow> nat \<Rightarrow> int \<Rightarrow> real" where
  "expected_plane b i m =
     (case map_of (states b) m of
        None \<Rightarrow> 0
      | Some p \<Rightarrow>
          if i mod 2 = 0 then
            (if p \<noteq> current_player b \<and>
                \<not> (i < length (states_sequence b) - 2 \<and>
                   snd (states_sequence b ! i) \<noteq> -1 \<and> fst (states_sequence b ! i) = m)
             then 1 else 0)
          else (if p = current_player b then 1 else 0))"

definition plane_entry :: "board \<Rightarrow> plane list \<Rightarrow> nat \<Rightarrow> int \<Rightarrow> real" where
  "plane_entry b sq i m =
     sq ! i ! (nat (width b) - 1 - nat (m div width b)) ! nat (m mod width b)"

text \<open>Boards after some moves.\<close>

definition board65_played :: board where
  "board65_played = play board65 [0, 29]"

definition board56_played :: board where
  "board56_played = play board56 [25]"

definition first_move_board :: board where
  "first_move_board = play board15 [112]"

definition midgame_board :: board where
  "midgame_board = play board15 [112, 113, 97]"

section \<open>Self-play driver\<close>

text \<open>
  The agent of \<open>start_self_play\<close> is outside this file: \<open>get_action\<close> is a parameter,
  a function of the agent's own state \<open>st\<close> and the board to a move, the move
  probabilities and the agent's next state; it is taken to return and to leave the
  board alone. \<open>order\<close> gives the order in which \<open>has_a_winner\<close> visits the played
  cells. The loop of \<open>start_self_play\<close> ends because every \<open>do_move\<close> that returns
  shortens \<open>availables\<close>; an exception ends it with \<open>Inl\<close>. Printing
  (\<open>is_shown\<close>) is left out.
\<close>

function self_play_loop ::
  "(board \<Rightarrow> int list) \<Rightarrow> ('s \<Rightarrow> board \<Rightarrow> (int \<times> 'p) \<times> 's) \<Rightarrow> 's \<Rightarrow> board \<Rightarrow>
   plane list list \<Rightarrow> 'p list \<Rightarrow> int list \<Rightarrow>
   error + (int \<times> plane list list \<times> 'p list \<times> int list)" where
  "self_play_loop order get_action st b sts mcts_probs current_players =
     (case get_action st b of
        ((move, move_probs), st') \<Rightarrow>
          (case current_state b of
             Inl e \<Rightarrow> Inl e
           | Inr enc \<Rightarrow>
               (case do_move b move of
                  Inl (e, b') \<Rightarrow> Inl e
                | Inr b' \<Rightarrow>
                    (case game_end b' (order b') of
                       Inl e \<Rightarrow> Inl e
                     | Inr (end, winner) \<Rightarrow>
                         if end
                         then Inr (winner, sts @ [enc], mcts_probs @ [move_probs],
                                   current_players @ [current_player b])
                         else self_play_loop order get_action st' b' (sts @ [enc])
                                (mcts_probs @ [move_probs])
                                (current_players @ [current_player b])))))"
  by pat_completeness auto
termination
proof (relation "measure (\<lambda>(order, get_action, st, b, sts, prs, cps). length (availables b))")
  show "wf (measure (\<lambda>(order, get_action, st, b, sts, prs, cps). length (availables b)))"
    by simp
next
  fix order :: "board \<Rightarrow> int list" and get_action :: "'s \<Rightarrow> board \<Rightarrow> (int \<times> 'p) \<times> 's"
    and st b sts and mcts_probs :: "'p list" and current_players x1 st' move move_probs enc b' x2 e w
  assume "do_move b move = Inr b'"
  then have "move \<in> set (availables b)" "availables b' = remove1 move (availables b)"
    by (auto simp: do_move_def Let_def split: if_splits)
  then have "length (availables b') < length (availables b)"
    by (simp add: length_remove1) (cases "availables b"; auto)
  then show "((order, get_action, st', b', sts @ [enc], mcts_probs @ [move_probs],
               current_players @ [current_player b]),
              (order, get_action, st, b, sts, mcts_probs, current_players))
             \<in> measure (\<lambda>(order, get_action, st, b, sts, prs, cps). length (availables b))"
    by simp
qed

text \<open>\<open>zs[sel] = v\<close> for a boolean array \<open>sel\<close>, and the labels \<open>winners_z\<close>.\<close>

definition mask_set :: "real list \<Rightarrow> bool list \<Rightarrow> real \<Rightarrow> real list" where
  "mask_set zs sel v = map (\<lambda>(z, m). if m then v else z) (zip zs sel)"

definition winners_z :: "int \<Rightarrow> int list \<Rightarrow> real list" where
  "winners_z winner current_players =
     (let z = replicate (length current_players) 0
      in if winner \<noteq> -1 then
           mask_set (mask_set z (map (\<lambda>p. p = winner) current_players) 1)
             (map (\<lambda>p. p \<noteq> winner) current_players) (-1)
         else z)"

definition start_self_play ::
  "(board \<Rightarrow> int list) \<Rightarrow> ('s \<Rightarrow> board \<Rightarrow> (int \<times> 'p) \<times> 's) \<Rightarrow> 's \<Rightarrow> board \<Rightarrow>
   error + (int \<times> (plane list \<times> 'p \<times> real) list)" where
  "start_self_play order get_action st b0 =
     (case init_board b0 0 of
        Inl e \<Rightarrow> Inl e
      | Inr b \<Rightarrow>
          (case self_play_loop order get_action st b [] [] [] of
             Inl e \<Rightarrow> Inl e
           | Inr (winner, sts, mcts_probs, current_players) \<Rightarrow>
               Inr (winner, zip sts (zip mcts_probs (winners_z winner current_players)))))"

text \<open>
  What an episode of self-play is, stated on its own: the boards and agent states before
  each ply. Every ply but the last is the agent's move applied by \<open>do_move\<close> to the
  board before it, after which \<open>game_end\<close> says the game goes on; after the last ply
  \<open>game_end\<close> says it has ended, with \<open>winner\<close>.
\<close>

fun episode ::
  "(board \<Rightarrow> int list) \<Rightarrow> ('s \<Rightarrow> board \<Rightarrow> (int \<times> 'p) \<times> 's) \<Rightarrow> (board \<times> 's) list \<Rightarrow> int \<Rightarrow> bool" where
  "episode order get_action [] winner = False"
| "episode order get_action [(b, st)] winner =
     (case do_move b (fst (fst (get_action st b))) of
        Inl e \<Rightarrow> False
      | Inr b' \<Rightarrow> game_end b' (order b') = Inr (True, winner))"
| "episode order get_action ((b, st) # (b1, st1) # tr) winner =
     (do_move b (fst (fst (get_action st b))) = Inr b1 \<and>
      st1 = snd (get_action st b) \<and>
      game_end b1 (order b1) = Inr (False, -1) \<and>
      episode order get_action ((b1, st1) # tr) winner)"

text \<open>
  An agent that plays a fixed list of moves, a game of nine plies on the 5 by 5 board, and
  the encoded states recorded in it.
\<close>

definition scripted :: "int list \<Rightarrow> board \<Rightarrow> (int \<times> unit) \<times> int list" where
  "scripted st b = ((case st of [] \<Rightarrow> -1 | m # ms \<Rightarrow> m, ()), tl st)"

definition self_play_script :: "int list" where
  "self_play_script = [0, 5, 1, 6, 2, 7, 3, 8, 4]"

definition self_play_states :: "plane list list" where
  "self_play_states =
     map (\<lambda>ms. case current_state (play board5 ms) of Inr enc \<Rightarrow> enc | Inl e \<Rightarrow> [])
       [[], [0], [0, 5], [0, 5, 1], [0, 5, 1, 6], [0, 5, 1, 6, 2], [0, 5, 1, 6, 2, 7],
        [0, 5, 1, 6, 2, 7, 3], [0, 5, 1, 6, 2, 7, 3, 8]]"

section \<open>Initialisation and moves\<close>

lemma py_nth_players:
  "py_nth players i = Inr p \<Longrightarrow> p \<in> {1, 2}"
  by (auto simp: py_nth_def players_def Let_def nth_Cons' split: if_splits)

lemma board_inv_init_board:
  assumes "init_board b0 sp = Inr b"
  shows "board_inv b"
proof -
  from assms obtain p where p: "py_nth players sp = Inr p"
    and b: "b = b0\<lparr>current_player := p,
                   availables := [0 .. width b0 * height b0 - 1],
                   states := [], last_move := -1,
                   states_sequence := replicate feature_planes (-1, -1)\<rparr>"
    by (auto simp: init_board_def split: if_splits sum.splits)
  from p have "p \<in> {1, 2}" by (rule py_nth_players)
  with b show ?thesis
    by (simp add: board_inv_def keys_def)
qed

lemma do_move_available:
  assumes "m \<in> set (availables b)"
  shows "do_move b m =
           Inr (b\<lparr>states := AList.update m (current_player b) (states b),
                  states_sequence := appendleft (m, current_player b) (states_sequence b),
                  availables := remove1 m (availables b),
                  current_player := (if current_player b = 2 then 1 else 2),
                  last_move := m\<rparr>)"
  using assms by (simp add: do_move_def Let_def players_def)

lemma do_move_Inr_available:
  "do_move b m = Inr b' \<Longrightarrow> m \<in> set (availables b)"
  by (auto simp: do_move_def Let_def split: if_splits)

lemma length_appendleft:
  "length q = feature_planes \<Longrightarrow> length (appendleft x q) = feature_planes"
  by (simp add: appendleft_def)

lemma snd_set_update:
  "snd ` set (AList.update k v al) \<subseteq> insert v (snd ` set al)"
  by (induction al) auto

lemma board_inv_do_move:
  assumes inv: "board_inv b" and ok: "do_move b m = Inr b'"
  shows "board_inv b'"
proof -
  have m: "m \<in> set (availables b)" using ok by (rule do_move_Inr_available)
  have b': "b' = b\<lparr>states := AList.update m (current_player b) (states b),
                  states_sequence := appendleft (m, current_player b) (states_sequence b),
                  availables := remove1 m (availables b),
                  current_player := (if current_player b = 2 then 1 else 2),
                  last_move := m\<rparr>"
    using ok do_move_available [OF m] by simp
  have k: "keys b' = insert m (keys b)"
    by (simp add: b' keys_def dom_update)
  have d: "distinct (availables b)" using inv by (simp add: board_inv_def)
  have a: "set (availables b') = set (availables b) - {m}"
    using d by (simp add: b')
  have v: "snd ` set (AList.update m (current_player b) (states b))
             \<subseteq> insert (current_player b) (snd ` set (states b))"
    by (rule snd_set_update)
  show ?thesis
    unfolding board_inv_def
  proof (intro conjI)
    show "distinct (map fst (states b'))"
      using inv by (simp add: b' board_inv_def distinct_update)
    show "distinct (availables b')"
      using d by (simp add: b')
    show "keys b' \<inter> set (availables b') = {}"
      using inv unfolding k a by (auto simp: board_inv_def)
    show "keys b' \<union> set (availables b') = {0 .. width b' * height b' - 1}"
    proof -
      have "width b' = width b" "height b' = height b" by (simp_all add: b')
      moreover have "keys b \<union> set (availables b) = {0 .. width b * height b - 1}"
        using inv by (simp add: board_inv_def)
      ultimately show ?thesis unfolding k a using m by auto
    qed
    show "last_move b' = - 1 \<or> last_move b' \<in> keys b'"
      unfolding k by (simp add: b')
    show "current_player b' \<in> {1, 2}"
      by (simp add: b')
    show "snd ` set (states b') \<subseteq> {1, 2}"
    proof -
      have "current_player b \<in> {1, 2}" "snd ` set (states b) \<subseteq> {1, 2}"
        using inv by (simp_all add: board_inv_def)
      then have "insert (current_player b) (snd ` set (states b)) \<subseteq> {1, 2}"
        by blast
      with v have "snd ` set (AList.update m (current_player b) (states b)) \<subseteq> {1, 2}"
        by (rule subset_trans)
      then show ?thesis by (simp add: b')
    qed
    show "length (states_sequence b') = feature_planes"
      using inv by (simp add: b' board_inv_def length_appendleft)
  qed
qed

lemma board_inv_do_moves:
  "board_inv b \<Longrightarrow> do_moves b ms = Inr b' \<Longrightarrow> board_inv b'"
proof (induction ms arbitrary: b)
  case Nil
  then show ?case by simp
next
  case (Cons m ms)
  then show ?case
    by (auto split: sum.splits dest: board_inv_do_move)
qed

lemma init_board15: "init_board (Board 15 15 5) 0 = Inr board15"
  by (simp add: init_board_def Board_def board15_def py_nth_def players_def)

lemma board_inv_board15: "board_inv board15"
  using init_board15 by (rule board_inv_init_board)

lemma availables_board15: "set (availables board15) = {0 .. 224}"
  by (simp add: board15_def)

subsection \<open>Coordinate conversion\<close>

text \<open>
  Claim C3, as stated, fails: the guard of \<open>location_to_move\<close> tests the linear index
  \<open>h * width + w\<close> only. On the 15 by 15 board the location (0, 15) has its column out
  of range and is mapped to move 15 (the cell (1, 0)), not to the sentinel.
\<close>

theorem location_to_move_column_counterexample:
  "\<not> (0 \<le> (15::int) \<and> 15 < width board15) \<and> location_to_move board15 [0, 15] \<noteq> -1"
  by (simp add: location_to_move_def board15_def Board_def)

text \<open>
  Claim C3, amended: \<open>location_to_move\<close> returns the sentinel -1 exactly when the
  location does not have two coordinates or \<open>row * width + col\<close> lies outside
  \<open>[0, width * height)\<close>, and returns \<open>row * width + col\<close> otherwise; in particular
  it returns -1 whenever the column is in range and the row is not. It is a function of
  its arguments to an integer: it raises nothing and changes no board.
\<close>

theorem location_to_move_sentinel:
  "(length loc \<noteq> 2 \<longrightarrow> location_to_move b loc = -1) \<and>
   location_to_move b [h, w] =
     (if 0 \<le> h * width b + w \<and> h * width b + w < width b * height b
      then h * width b + w else -1) \<and>
   (0 \<le> w \<and> w < width b \<and> \<not> (0 \<le> h \<and> h < height b)
      \<longrightarrow> location_to_move b [h, w] = -1)"
proof (intro conjI impI)
  assume "length loc \<noteq> 2"
  then show "location_to_move b loc = -1"
    by (auto simp: location_to_move_def split: list.splits)
next
  show "location_to_move b [h, w] =
     (if 0 \<le> h * width b + w \<and> h * width b + w < width b * height b
      then h * width b + w else -1)"
    by (simp add: location_to_move_def Let_def)
next
  assume a: "0 \<le> w \<and> w < width b \<and> \<not> (0 \<le> h \<and> h < height b)"
  then have wpos: "0 < width b" by simp
  have "h * width b + w < 0 \<or> width b * height b \<le> h * width b + w"
  proof (cases "h < 0")
    case True
    then have "h \<le> -1" by simp
    with wpos have "h * width b \<le> (-1) * width b"
      by (intro mult_right_mono) simp_all
    with a show ?thesis by simp
  next
    case False
    with a have "height b \<le> h" by simp
    with wpos have "height b * width b \<le> h * width b"
      by (intro mult_right_mono) simp_all
    moreover have "width b * height b = height b * width b" by simp
    ultimately show ?thesis using a by linarith
  qed
  then show "location_to_move b [h, w] = -1"
    by (auto simp: location_to_move_def Let_def)
qed

theorem location_to_move_sentinel_witness:
  "length [1::int] \<noteq> 2 \<and> location_to_move board15 [1] = -1 \<and>
   location_to_move board15 [7, 7] = 112 \<and>
   (0 \<le> (3::int) \<and> 3 < width board15 \<and> \<not> (0 \<le> (15::int) \<and> 15 < height board15)) \<and>
   location_to_move board15 [15, 3] = -1"
  using location_to_move_sentinel [of "[1]" board15 7 7]
    location_to_move_sentinel [of "[1]" board15 15 3]
  by (simp add: board15_def Board_def)

subsection \<open>Applying a move\<close>

text \<open>
  Claim C6: on a board satisfying the invariant, \<open>do_move m\<close> for an available move
  \<open>m\<close> returns; afterwards \<open>m\<close> is not available, \<open>states\<close> maps \<open>m\<close> to the
  player who was to move, \<open>current_player\<close> is the other player, and \<open>last_move\<close>
  is \<open>m\<close>.
\<close>

theorem do_move_postcondition:
  assumes "board_inv b" and "m \<in> set (availables b)"
  shows "\<exists>b'. do_move b m = Inr b' \<and>
           m \<notin> set (availables b') \<and>
           map_of (states b') m = Some (current_player b) \<and>
           current_player b' = (if current_player b = 1 then 2 else 1) \<and>
           last_move b' = m"
proof -
  have d: "distinct (availables b)" and c: "current_player b \<in> {1, 2}"
    using assms(1) by (simp_all add: board_inv_def)
  from c have "(if current_player b = 2 then 1 else 2)
                 = (if current_player b = 1 then 2 else (1::int))"
    by auto
  then show ?thesis
    using d by (simp add: do_move_available [OF assms(2)] update_conv')
qed

theorem do_move_postcondition_witness:
  "board_inv board15 \<and> 112 \<in> set (availables board15) \<and>
   (\<exists>b'. do_move board15 112 = Inr b' \<and>
      112 \<notin> set (availables b') \<and>
      map_of (states b') 112 = Some 1 \<and>
      current_player b' = 2 \<and>
      last_move b' = 112)"
proof -
  have m: "112 \<in> set (availables board15)" by (simp add: availables_board15)
  have c: "current_player board15 = 1" by (simp add: board15_def)
  show ?thesis
    using do_move_postcondition [OF board_inv_board15 m] board_inv_board15 m
    by (simp add: c)
qed

text \<open>
  Claim C7: after \<open>init_board\<close>, and after any sequence of \<open>do_move\<close> calls each of
  which was given an available move (the calls that return), the keys of \<open>states\<close>
  and \<open>availables\<close> are disjoint and together are \<open>{0 .. width * height - 1}\<close>.
\<close>

theorem occupied_available_partition:
  assumes "init_board b0 sp = Inr b1" and "do_moves b1 ms = Inr b"
  shows "keys b \<inter> set (availables b) = {} \<and>
         keys b \<union> set (availables b) = {0 .. width b * height b - 1}"
proof -
  have "board_inv b1" using assms(1) by (rule board_inv_init_board)
  then have "board_inv b" using assms(2) by (rule board_inv_do_moves)
  then show ?thesis by (simp add: board_inv_def)
qed

theorem occupied_available_partition_witness:
  "init_board (Board 15 15 5) 0 = Inr board15 \<and>
   do_moves board15 [112, 113] = Inr (after_move (after_move board15 112) 113) \<and>
   keys (after_move (after_move board15 112) 113)
     \<inter> set (availables (after_move (after_move board15 112) 113)) = {} \<and>
   keys (after_move (after_move board15 112) 113)
     \<union> set (availables (after_move (after_move board15 112) 113)) = {0 .. 224}"
proof -
  have 1: "do_move board15 112 = Inr (after_move board15 112)"
    by (simp add: after_move_def do_move_available availables_board15)
  have "113 \<in> set (availables (after_move board15 112))"
    by (simp add: after_move_def do_move_available availables_board15 board15_def)
  then have 2: "do_move (after_move board15 112) 113
                  = Inr (after_move (after_move board15 112) 113)"
    by (simp add: after_move_def [of "after_move board15 112"] do_move_available)
  have 3: "do_moves board15 [112, 113] = Inr (after_move (after_move board15 112) 113)"
    by (simp add: 1 2)
  have 4: "width (after_move (after_move board15 112) 113) = 15"
    "height (after_move (after_move board15 112) 113) = 15"
    by (simp_all add: after_move_def do_move_def Let_def board15_def Board_def)
  show ?thesis
    using occupied_available_partition [OF init_board15 3] init_board15 3
    by (simp add: 4)
qed

text \<open>
  Claim C10: for a move that is not in \<open>availables\<close>, \<open>do_move\<close> raises ValueError
  after it has written \<open>states[m]\<close> and pushed \<open>(m, current_player)\<close> onto the
  history; \<open>current_player\<close>, \<open>last_move\<close> and \<open>availables\<close> are as before.
\<close>

theorem do_move_not_atomic:
  assumes "m \<notin> set (availables b)"
  shows "\<exists>b'. do_move b m = Inl (ValueError, b') \<and>
           map_of (states b') m = Some (current_player b) \<and>
           states_sequence b' =
             (m, current_player b) # take (feature_planes - 1) (states_sequence b) \<and>
           current_player b' = current_player b \<and>
           last_move b' = last_move b \<and>
           availables b' = availables b"
  using assms
  by (simp add: do_move_def Let_def update_conv' appendleft_def feature_planes_def)

theorem do_move_not_atomic_witness:
  "112 \<notin> set (availables (after_move board15 112)) \<and>
   (\<exists>b'. do_move (after_move board15 112) 112 = Inl (ValueError, b') \<and>
      map_of (states b') 112 = Some 2 \<and>
      states_sequence b' = [(112, 2), (112, 1), (-1, -1), (-1, -1), (-1, -1), (-1, -1),
        (-1, -1), (-1, -1)] \<and>
      current_player b' = 2 \<and>
      last_move b' = 112 \<and>
      availables b' = availables (after_move board15 112))"
proof -
  have b: "after_move board15 112 =
             board15\<lparr>states := [(112, 1)],
               states_sequence := [(112, 1), (-1, -1), (-1, -1), (-1, -1), (-1, -1),
                 (-1, -1), (-1, -1), (-1, -1)],
               availables := remove1 112 (availables board15),
               current_player := 2, last_move := 112\<rparr>"
    by (simp add: after_move_def do_move_available availables_board15)
      (simp add: board15_def Board_def appendleft_def feature_planes_def eval_nat_numeral)
  have m: "112 \<notin> set (availables (after_move board15 112))"
    by (simp add: b) (simp add: board15_def)
  show ?thesis
    using do_move_not_atomic [OF m] m
    by (simp add: b feature_planes_def)
qed

section \<open>Win detection\<close>

lemma scan_moved_Cons:
  assumes "width b \<noteq> 0" and "map_of (states b) m = Some p"
  shows "scan_moved b (m # ms) = (if starts_run b m p then Inr (Some p) else scan_moved b ms)"
  using assms by (auto simp: starts_run_def Let_def)

lemma scan_moved_hit:
  assumes "width b \<noteq> 0"
    and "\<forall>m\<in>set ms. \<exists>q. map_of (states b) m = Some q \<and> (starts_run b m q \<longrightarrow> q = p)"
    and "\<exists>m\<in>set ms. \<exists>q. map_of (states b) m = Some q \<and> starts_run b m q"
  shows "scan_moved b ms = Inr (Some p)"
  using assms(2,3)
proof (induction ms)
  case Nil
  then show ?case by simp
next
  case (Cons m ms)
  from Cons.prems(1) obtain q where q: "map_of (states b) m = Some q"
    and qp: "starts_run b m q \<longrightarrow> q = p" by auto
  show ?case
  proof (cases "starts_run b m q")
    case True
    with q qp show ?thesis by (simp add: scan_moved_Cons [OF assms(1) q] del: scan_moved.simps)
  next
    case False
    with Cons.prems(2) q have "\<exists>m\<in>set ms. \<exists>q. map_of (states b) m = Some q \<and> starts_run b m q"
      by auto
    with Cons.IH Cons.prems(1) have "scan_moved b ms = Inr (Some p)" by simp
    with False show ?thesis by (simp add: scan_moved_Cons [OF assms(1) q] del: scan_moved.simps)
  qed
qed

lemma scan_moved_miss:
  assumes "width b \<noteq> 0"
    and "\<forall>m\<in>set ms. \<exists>q. map_of (states b) m = Some q \<and> \<not> starts_run b m q"
  shows "scan_moved b ms = Inr None"
  using assms(2)
proof (induction ms)
  case Nil
  then show ?case by simp
next
  case (Cons m ms)
  from Cons.prems obtain q where q: "map_of (states b) m = Some q"
    and nq: "\<not> starts_run b m q" by auto
  from Cons have "scan_moved b ms = Inr None" by simp
  with nq show ?case by (simp add: scan_moved_Cons [OF assms(1) q] del: scan_moved.simps)
qed

lemma run_from_iff:
  "run_from b m step p \<longleftrightarrow> (\<forall>i. 0 \<le> i \<and> i < n_in_row b \<longrightarrow> states_get b (m + i * step) (-1) = p)"
  by (auto simp: run_from_def list_all_iff)

lemma run_at_iff:
  "run_at b k r c dr dc p \<longleftrightarrow>
     (\<forall>i. 0 \<le> i \<and> i < k \<longrightarrow> on_board b (r + i * dr) (c + i * dc) \<and>
        map_of (states b) (cell b (r + i * dr) (c + i * dc)) = Some p)"
  by (auto simp: run_at_def list_all_iff)

lemma has_run_iff:
  "has_run b k p \<longleftrightarrow>
     (\<exists>r c dr dc. 0 \<le> r \<and> r < height b \<and> 0 \<le> c \<and> c < width b \<and>
        (dr, dc) \<in> set line_dirs \<and> run_at b k r c dr dc p)"
proof
  assume "has_run b k p"
  then obtain r c d where "r \<in> set [0 .. height b - 1]" "c \<in> set [0 .. width b - 1]"
    "d \<in> set line_dirs" "case d of (dr, dc) \<Rightarrow> run_at b k r c dr dc p"
    unfolding has_run_def list_ex_iff by blast
  then show "\<exists>r c dr dc. 0 \<le> r \<and> r < height b \<and> 0 \<le> c \<and> c < width b \<and>
        (dr, dc) \<in> set line_dirs \<and> run_at b k r c dr dc p"
    by (cases d) auto
next
  assume "\<exists>r c dr dc. 0 \<le> r \<and> r < height b \<and> 0 \<le> c \<and> c < width b \<and>
        (dr, dc) \<in> set line_dirs \<and> run_at b k r c dr dc p"
  then obtain r c dr dc where "r \<in> set [0 .. height b - 1]" "c \<in> set [0 .. width b - 1]"
    "(dr, dc) \<in> set line_dirs" "case (dr, dc) of (dr, dc) \<Rightarrow> run_at b k r c dr dc p"
    by auto
  then show "has_run b k p"
    unfolding has_run_def list_ex_iff by blast
qed

lemma states_get_Some:
  "p \<noteq> d \<Longrightarrow> states_get b k d = p \<longleftrightarrow> map_of (states b) k = Some p"
  by (auto simp: states_get_def split: option.splits)

lemma cell_div_mod:
  assumes "0 < width b" 
  shows "cell b (m div width b) (m mod width b) = m"
  by (simp add: cell_def)

lemma int_div_less:
  fixes w :: int
  assumes "0 < w" "m < w * h"
  shows "m div w < h"
proof (rule ccontr)
  assume "\<not> m div w < h"
  then have "h \<le> m div w" by simp
  with assms(1) have "w * h \<le> w * (m div w)" by (intro mult_left_mono) simp_all
  also have "\<dots> \<le> m"
    using assms(1) by (metis add.commute le_add_same_cancel2 mult_div_mod_eq pos_mod_sign)
  finally show False using assms(2) by simp
qed

lemma row_in_range:
  assumes "0 < width b" "0 \<le> m" "m < width b * height b"
  shows "0 \<le> m div width b \<and> m div width b < height b"
  using assms by (simp add: pos_imp_zdiv_nonneg_iff int_div_less)

lemma starts_run_has_run:
  assumes w: "0 < width b" and m: "0 \<le> m" "m < width b * height b"
    and p: "p \<noteq> -1" and s: "starts_run b m p"
  shows "has_run b (n_in_row b) p"
proof -
  define r where "r = m div width b"
  define c where "c = m mod width b"
  have r: "0 \<le> r" "r < height b" using row_in_range [OF w m] by (simp_all add: r_def)
  have c: "0 \<le> c" "c < width b" using w by (simp_all add: c_def)
  have mc: "m = r * width b + c" by (simp add: r_def c_def)
  have get: "\<And>k. states_get b k (-1) = p \<longleftrightarrow> map_of (states b) k = Some p"
    using p by (simp add: states_get_Some)
  from s consider
    (H) "c \<le> width b - n_in_row b" "run_from b m 1 p"
    | (V) "r \<le> height b - n_in_row b" "run_from b m (width b) p"
    | (D) "c \<le> width b - n_in_row b" "r \<le> height b - n_in_row b"
       "run_from b m (width b + 1) p"
    | (A) "c \<ge> n_in_row b - 1" "r \<le> height b - n_in_row b"
       "run_from b m (width b - 1) p"
    unfolding starts_run_def r_def c_def by blast
  then have "\<exists>dr dc. (dr, dc) \<in> set line_dirs \<and> run_at b (n_in_row b) r c dr dc p"
  proof cases
    case H
    have "run_at b (n_in_row b) r c 0 1 p"
      unfolding run_at_iff
    proof (intro allI impI)
      fix i assume i: "0 \<le> i \<and> i < n_in_row b"
      with H(2) have "map_of (states b) (m + i) = Some p"
        by (simp add: run_from_iff get)
      then show "on_board b (r + i * 0) (c + i * 1) \<and>
        map_of (states b) (cell b (r + i * 0) (c + i * 1)) = Some p"
        using i r c H(1) by (simp add: on_board_def cell_def mc add.assoc)
    qed
    then show ?thesis by (auto simp: line_dirs_def)
  next
    case V
    have "run_at b (n_in_row b) r c 1 0 p"
      unfolding run_at_iff
    proof (intro allI impI)
      fix i assume i: "0 \<le> i \<and> i < n_in_row b"
      with V(2) have "map_of (states b) (m + i * width b) = Some p"
        by (simp add: run_from_iff get)
      then show "on_board b (r + i * 1) (c + i * 0) \<and>
        map_of (states b) (cell b (r + i * 1) (c + i * 0)) = Some p"
        using i r c V(1) by (simp add: on_board_def cell_def mc algebra_simps)
    qed
    then show ?thesis by (auto simp: line_dirs_def)
  next
    case D
    have "run_at b (n_in_row b) r c 1 1 p"
      unfolding run_at_iff
    proof (intro allI impI)
      fix i assume i: "0 \<le> i \<and> i < n_in_row b"
      with D(3) have "map_of (states b) (m + i * (width b + 1)) = Some p"
        by (simp add: run_from_iff get)
      then show "on_board b (r + i * 1) (c + i * 1) \<and>
        map_of (states b) (cell b (r + i * 1) (c + i * 1)) = Some p"
        using i r c D(1,2) by (simp add: on_board_def cell_def mc algebra_simps)
    qed
    then show ?thesis by (auto simp: line_dirs_def)
  next
    case A
    have "run_at b (n_in_row b) r c 1 (-1) p"
      unfolding run_at_iff
    proof (intro allI impI)
      fix i assume i: "0 \<le> i \<and> i < n_in_row b"
      with A(3) have "map_of (states b) (m + i * (width b - 1)) = Some p"
        by (simp add: run_from_iff get)
      then show "on_board b (r + i * 1) (c + i * (-1)) \<and>
        map_of (states b) (cell b (r + i * 1) (c + i * (-1))) = Some p"
        using i r c A(1,2) by (simp add: on_board_def cell_def mc algebra_simps)
    qed
    then show ?thesis by (auto simp: line_dirs_def)
  qed
  with r c show ?thesis unfolding has_run_iff by blast
qed

lemma cell_div: "0 < width b \<Longrightarrow> 0 \<le> c \<Longrightarrow> c < width b \<Longrightarrow> cell b r c div width b = r"
  by (simp add: cell_def div_pos_pos_trivial)

lemma cell_mod: "0 < width b \<Longrightarrow> 0 \<le> c \<Longrightarrow> c < width b \<Longrightarrow> cell b r c mod width b = c"
  by (simp add: cell_def mod_pos_pos_trivial)

lemma run_at_starts_run:
  assumes w: "0 < width b" and n: "1 \<le> n_in_row b"
    and d: "(dr, dc) \<in> set line_dirs"
    and run: "run_at b (n_in_row b) r c dr dc p"
  shows "starts_run b (cell b r c) p"
proof -
  have at: "\<And>i. 0 \<le> i \<Longrightarrow> i < n_in_row b \<Longrightarrow>
      on_board b (r + i * dr) (c + i * dc) \<and>
      states_get b (cell b (r + i * dr) (c + i * dc)) (-1) = p"
    using run by (simp add: run_at_iff states_get_def)
  from at [of 0] n have rc: "0 \<le> r" "r < height b" "0 \<le> c" "c < width b"
    by (simp_all add: on_board_def)
  from at [of "n_in_row b - 1"] n
  have last: "on_board b (r + (n_in_row b - 1) * dr) (c + (n_in_row b - 1) * dc)"
    by simp
  have dv: "cell b r c div width b = r" and md: "cell b r c mod width b = c"
    using w rc by (simp_all add: cell_div cell_mod)
  from d consider "dr = 0 \<and> dc = 1" | "dr = 1 \<and> dc = 0" | "dr = 1 \<and> dc = 1"
    | "dr = 1 \<and> dc = -1"
    by (auto simp: line_dirs_def)
  then show ?thesis
  proof cases
    case 1
    have "run_from b (cell b r c) 1 p"
      unfolding run_from_iff using at 1 by (simp add: cell_def add.assoc)
    moreover have "c \<le> width b - n_in_row b"
      using last 1 by (simp add: on_board_def)
    ultimately show ?thesis by (simp add: starts_run_def dv md)
  next
    case 2
    have "run_from b (cell b r c) (width b) p"
      unfolding run_from_iff using at 2 by (simp add: cell_def algebra_simps)
    moreover have "r \<le> height b - n_in_row b"
      using last 2 by (simp add: on_board_def)
    ultimately show ?thesis by (simp add: starts_run_def dv md)
  next
    case 3
    have "run_from b (cell b r c) (width b + 1) p"
      unfolding run_from_iff using at 3 by (simp add: cell_def algebra_simps)
    moreover have "r \<le> height b - n_in_row b" "c \<le> width b - n_in_row b"
      using last 3 by (simp_all add: on_board_def)
    ultimately show ?thesis by (simp add: starts_run_def dv md)
  next
    case 4
    have "run_from b (cell b r c) (width b - 1) p"
      unfolding run_from_iff using at 4 by (simp add: cell_def algebra_simps)
    moreover have "r \<le> height b - n_in_row b" "n_in_row b - 1 \<le> c"
      using last 4 by (simp_all add: on_board_def)
    ultimately show ?thesis by (simp add: starts_run_def dv md)
  qed
qed

lemma set_moved: "board_inv b \<Longrightarrow> set (moved b) = keys b"
  by (auto simp: moved_def board_inv_def)

lemma stone_lookup:
  assumes "board_inv b" and "m \<in> keys b"
  shows "\<exists>q. map_of (states b) m = Some q \<and> q \<in> {1, 2}"
proof -
  from assms(2) obtain q where q: "(m, q) \<in> set (states b)"
    by (auto simp: keys_def)
  moreover have "distinct (map fst (states b))" using assms(1) by (simp add: board_inv_def)
  ultimately have "map_of (states b) m = Some q" by simp
  moreover have "q \<in> {1, 2}"
    using q assms(1) by (force simp: board_inv_def)
  ultimately show ?thesis by blast
qed

lemma keys_in_range:
  "board_inv b \<Longrightarrow> m \<in> keys b \<Longrightarrow> 0 \<le> m \<and> m < width b * height b"
  by (auto simp: board_inv_def)

lemma lookup_key: "map_of (states b) m = Some q \<Longrightarrow> m \<in> keys b"
  by (force simp: keys_def dest: map_of_SomeD)


lemma run_at_card:
  assumes w: "0 < width b" and d: "(dr, dc) \<in> set line_dirs"
    and run: "run_at b k r c dr dc p"
  shows "k \<le> int (card (keys b))"
proof -
  let ?f = "\<lambda>i. cell b (r + i * dr) (c + i * dc)"
  have at: "\<And>i. 0 \<le> i \<Longrightarrow> i < k \<Longrightarrow>
      on_board b (r + i * dr) (c + i * dc) \<and> map_of (states b) (?f i) = Some p"
    using run by (simp add: run_at_iff)
  have "inj_on ?f {0 .. k - 1}"
  proof (rule inj_onI)
    fix i j assume i: "i \<in> {0 .. k - 1}" and j: "j \<in> {0 .. k - 1}" and e: "?f i = ?f j"
    from at [of i] i have oi: "0 \<le> c + i * dc" "c + i * dc < width b"
      by (simp_all add: on_board_def)
    from at [of j] j have oj: "0 \<le> c + j * dc" "c + j * dc < width b"
      by (simp_all add: on_board_def)
    have "?f i div width b = ?f j div width b" "?f i mod width b = ?f j mod width b"
      using e by simp_all
    then have "r + i * dr = r + j * dr" "c + i * dc = c + j * dc"
      using w oi oj by (simp_all add: cell_div cell_mod)
    moreover from d have "dr = 1 \<or> dc = 1" by (auto simp: line_dirs_def)
    ultimately show "i = j" by auto
  qed
  then have "card (?f ` {0 .. k - 1}) = card {0 .. k - 1}" by (rule card_image)
  moreover have "?f ` {0 .. k - 1} \<subseteq> keys b"
    using at by (auto intro: lookup_key)
  moreover have "finite (keys b)" by (simp add: keys_def)
  ultimately have "card {0 .. k - 1} \<le> card (keys b)"
    by (metis card_mono)
  then show ?thesis by simp
qed

lemma has_run_player:
  assumes "board_inv b" and "1 \<le> k" and "has_run b k q"
  shows "q \<in> {1, 2}"
proof -
  from assms(3) obtain r c dr dc where "run_at b k r c dr dc q"
    unfolding has_run_iff by blast
  with assms(2) have "map_of (states b) (cell b r c) = Some q"
    by (auto simp: run_at_iff dest: spec [of _ 0])
  then show ?thesis
    using stone_lookup [OF assms(1) lookup_key] by fastforce
qed

lemma run_wins:
  assumes w: "0 < width b" and n: "1 \<le> n_in_row b" and inv: "board_inv b"
    and ms: "distinct ms" "set ms = set (moved b)"
    and d: "(dr, dc) \<in> set line_dirs"
    and run: "run_at b (n_in_row b) r c dr dc p"
    and only: "\<And>q. has_run b (n_in_row b) q \<Longrightarrow> q = p"
  shows "has_a_winner b ms = Inr (True, p)"
proof -
  have keys: "set ms = keys b" using ms(2) inv by (simp add: set_moved)
  have "n_in_row b \<le> int (card (keys b))" using w d run by (rule run_at_card)
  also have "card (keys b) = length ms"
    using ms(1) keys by (simp add: distinct_card [symmetric])
  finally have len: "\<not> int (length ms) < n_in_row b" by simp
  have "map_of (states b) (cell b r c) = Some p"
    using run n by (auto simp: run_at_iff dest: spec [of _ 0])
  moreover from this have "cell b r c \<in> set ms" unfolding keys by (rule lookup_key)
  moreover have "starts_run b (cell b r c) p" using w n d run by (rule run_at_starts_run)
  ultimately have hit: "\<exists>m\<in>set ms. \<exists>q. map_of (states b) m = Some q \<and> starts_run b m q"
    by blast
  have "\<forall>m\<in>set ms. \<exists>q. map_of (states b) m = Some q \<and> (starts_run b m q \<longrightarrow> q = p)"
  proof
    fix m assume "m \<in> set ms"
    then have m: "m \<in> keys b" by (simp add: keys)
    from stone_lookup [OF inv m] obtain q where q: "map_of (states b) m = Some q" "q \<in> {1, 2}"
      by blast
    from keys_in_range [OF inv m] have r: "0 \<le> m" "m < width b * height b" by simp_all
    have "starts_run b m q \<longrightarrow> q = p"
    proof
      assume "starts_run b m q"
      with w r q(2) have "has_run b (n_in_row b) q"
        by (intro starts_run_has_run) auto
      then show "q = p" by (rule only)
    qed
    with q(1) show "\<exists>q. map_of (states b) m = Some q \<and> (starts_run b m q \<longrightarrow> q = p)"
      by blast
  qed
  with w hit have "scan_moved b ms = Inr (Some p)"
    by (intro scan_moved_hit) simp_all
  with len show ?thesis by (simp add: has_a_winner_def)
qed

lemma no_run_no_winner:
  assumes w: "0 < width b" and inv: "board_inv b"
    and ms: "set ms = set (moved b)"
    and no1: "\<not> has_run b (n_in_row b) 1" and no2: "\<not> has_run b (n_in_row b) 2"
  shows "scan_moved b ms = Inr None"
proof -
  have keys: "set ms = keys b" using ms inv by (simp add: set_moved)
  have "\<forall>m\<in>set ms. \<exists>q. map_of (states b) m = Some q \<and> \<not> starts_run b m q"
  proof
    fix m assume "m \<in> set ms"
    then have m: "m \<in> keys b" by (simp add: keys)
    from stone_lookup [OF inv m] obtain q where q: "map_of (states b) m = Some q" "q \<in> {1, 2}"
      by blast
    from keys_in_range [OF inv m] have r: "0 \<le> m" "m < width b * height b" by simp_all
    have "\<not> starts_run b m q"
    proof
      assume "starts_run b m q"
      with w r q(2) have "has_run b (n_in_row b) q"
        by (intro starts_run_has_run) auto
      with q(2) no1 no2 show False by auto
    qed
    with q(1) show "\<exists>q. map_of (states b) m = Some q \<and> \<not> starts_run b m q" by blast
  qed
  with w show ?thesis by (intro scan_moved_miss) simp_all
qed

lemma distinct_moved: "distinct (moved b)"
  by (simp add: moved_def)

lemma do_moves_play: 
  "do_moves b ms = Inr b' \<Longrightarrow> play b ms = b'"
  by (induction ms arbitrary: b) (auto simp: play_def after_move_def split: sum.splits)

lemma run_at_shorter:
  "run_at b k r c dr dc p \<Longrightarrow> j \<le> k \<Longrightarrow> run_at b j r c dr dc p"
  by (auto simp: run_at_iff)

lemma game_end_winner:
  "has_a_winner b ms = Inr (True, p) \<Longrightarrow> game_end b ms = Inr (True, p)"
  by (simp add: game_end_def)

lemma do_moves_overline_board:
  "do_moves board15 [0, 30, 1, 32, 2, 34, 4, 36, 5, 38, 3] = Inr overline_board"
  by code_simp

lemma game_open_before_overline:
  "game_end before_overline (moved before_overline) = Inr (False, -1)"
  by code_simp

lemma overline_board_from_before: "do_move before_overline 3 = Inr overline_board"
  by code_simp

lemma run_at_overline_board: "run_at overline_board 6 0 0 0 1 1"
  by code_simp

lemma no_run_overline_board: "\<not> has_run overline_board 5 2"
  by code_simp

lemma forbidden_violation_overline_board: "forbidden_violation overline_board = Inr True"
  by code_simp

lemma do_moves_draw_board:
  "do_moves board5
     [0, 2, 1, 3, 4, 5, 7, 6, 8, 9, 10, 12, 11, 13, 14, 15, 17, 16, 18, 19, 20, 22, 21, 24, 23]
   = Inr draw_board"
  by code_simp

lemma draw_board_facts:
  "\<not> has_run draw_board 5 1" "\<not> has_run draw_board 5 2"
  "forbidden_violation draw_board = Inr False" "availables draw_board = []"
  by code_simp+

subsection \<open>Overline\<close>

text \<open>
  Claim C1 says that a run of \<open>n_in_row + 1\<close> stones of player 1 is reported as a win
  for player 2. The code reports player 1: on every board where player 1 has such a run
  and player 2 has no run of \<open>n_in_row\<close>, \<open>has_a_winner\<close> and \<open>game_end\<close> return
  \<open>(True, 1)\<close>, in whatever order the played cells are visited. The loop over the
  played cells returns at a run of \<open>n_in_row\<close> inside the overline, so the
  forbidden-move check after the loop, which does recognise the overline
  (\<open>forbidden_violation_overline_board\<close>), is never reached.
\<close>

theorem overline_wins_for_first_player:
  assumes "0 < width b" and "1 \<le> n_in_row b" and "board_inv b"
    and "distinct ms" and "set ms = set (moved b)"
    and "(dr, dc) \<in> set line_dirs"
    and "run_at b (n_in_row b + 1) r c dr dc 1"
    and "\<not> has_run b (n_in_row b) 2"
  shows "has_a_winner b ms = Inr (True, 1) \<and> game_end b ms = Inr (True, 1)"
proof -
  have run: "run_at b (n_in_row b) r c dr dc 1"
    using assms(7) by (rule run_at_shorter) simp
  have only: "q = 1" if "has_run b (n_in_row b) q" for q
    using has_run_player [OF assms(3,2) that] that assms(8) by auto
  have "has_a_winner b ms = Inr (True, 1)"
    using assms(1,2,3,4,5,6) run only by (rule run_wins)
  then show ?thesis by (simp add: game_end_winner)
qed

lemma board_inv_overline_board: "board_inv overline_board"
  using board_inv_board15 do_moves_overline_board by (rule board_inv_do_moves)

theorem overline_wins_for_first_player_witness:
  "0 < width overline_board \<and> 1 \<le> n_in_row overline_board \<and> board_inv overline_board \<and>
   distinct (moved overline_board) \<and>
   (0, 1) \<in> set line_dirs \<and>
   n_in_row overline_board + 1 = 6 \<and>
   run_at overline_board 6 0 0 0 1 1 \<and>
   \<not> has_run overline_board (n_in_row overline_board) 2 \<and>
   has_a_winner overline_board (moved overline_board) = Inr (True, 1) \<and>
   game_end overline_board (moved overline_board) = Inr (True, 1)"
proof -
  have w: "width overline_board = 15" and n: "n_in_row overline_board = 5"
    by code_simp+
  have d: "(0, 1) \<in> set line_dirs" by (simp add: line_dirs_def)
  have r: "run_at overline_board (n_in_row overline_board + 1) 0 0 0 1 1"
    using run_at_overline_board by (simp add: n)
  have h: "\<not> has_run overline_board (n_in_row overline_board) 2"
    using no_run_overline_board by (simp add: n)
  have "has_a_winner overline_board (moved overline_board) = Inr (True, 1) \<and>
        game_end overline_board (moved overline_board) = Inr (True, 1)"
    by (rule overline_wins_for_first_player [OF _ _ board_inv_overline_board distinct_moved refl d r h])
       (simp_all add: w n)
  then show ?thesis
    using board_inv_overline_board distinct_moved d run_at_overline_board h by (simp add: w n)
qed

subsection \<open>Five in a row\<close>




















subsection \<open>Draw\<close>

text \<open>
  Claim C9: on a board of positive width with no available move, no run of \<open>n_in_row\<close>
  stones of either player and no forbidden-move violation, \<open>game_end\<close> returns
  \<open>(True, -1)\<close>.
\<close>

theorem full_board_draw:
  assumes "0 < width b" and "board_inv b" and "availables b = []"
    and "distinct ms" and "set ms = set (moved b)"
    and "\<not> has_run b (n_in_row b) 1" and "\<not> has_run b (n_in_row b) 2"
    and "forbidden_violation b = Inr False"
  shows "game_end b ms = Inr (True, -1)"
proof -
  have "scan_moved b ms = Inr None"
    using assms(1,2,5,6,7) by (rule no_run_no_winner)
  then have "has_a_winner b ms = Inr (False, -1)"
    using assms(8) by (simp add: has_a_winner_def)
  then show ?thesis
    using assms(3) by (simp add: game_end_def)
qed

lemma init_board5: "init_board (Board 5 5 5) 0 = Inr board5"
  by (simp add: init_board_def Board_def board5_def py_nth_def players_def)

lemma board_inv_draw_board: "board_inv draw_board"
  using board_inv_init_board [OF init_board5] do_moves_draw_board by (rule board_inv_do_moves)

theorem full_board_draw_witness:
  "0 < width draw_board \<and> board_inv draw_board \<and> availables draw_board = [] \<and>
   distinct (moved draw_board) \<and>
   \<not> has_run draw_board (n_in_row draw_board) 1 \<and>
   \<not> has_run draw_board (n_in_row draw_board) 2 \<and>
   forbidden_violation draw_board = Inr False \<and>
   game_end draw_board (moved draw_board) = Inr (True, -1)"
proof -
  have w: "0 < width draw_board" and n: "n_in_row draw_board = 5" by code_simp+
  have h: "\<not> has_run draw_board (n_in_row draw_board) 1"
    "\<not> has_run draw_board (n_in_row draw_board) 2"
    using draw_board_facts(1,2) by (simp_all add: n)
  show ?thesis
    using full_board_draw [OF w board_inv_draw_board draw_board_facts(4) distinct_moved refl h draw_board_facts(3)]
      w board_inv_draw_board draw_board_facts(4) distinct_moved h draw_board_facts(3)
    by simp
qed

section \<open>The encoded state\<close>

lemma has_shape_iff:
  "has_shape sq k R C \<longleftrightarrow>
     length sq = k \<and> (\<forall>i<k. length (sq ! i) = R \<and> (\<forall>x<R. length (sq ! i ! x) = C))"
  by (auto simp: has_shape_def list_all_length)

lemma np_index_nonneg: "0 \<le> i \<Longrightarrow> i < int n \<Longrightarrow> np_index n i = Inr (nat i)"
  by (simp add: np_index_def)

lemma set_cell_ok:
  assumes "has_shape sq k R C" and "i < k" and "0 \<le> r" and "r < int R"
    and "0 \<le> c" and "c < int C"
  shows "set_cell sq i r c v =
           Inr (sq[i := (sq ! i)[nat r := (sq ! i ! nat r)[nat c := v]]])"
proof -
  have l: "length sq = k" "length (sq ! i) = R"
    using assms(1,2) by (simp_all add: has_shape_iff)
  have "nat r < R" using assms(3,4) by simp
  then have l2: "length (sq ! i ! nat r) = C"
    using assms(1,2) by (simp add: has_shape_iff)
  show ?thesis
    using assms(2-) by (simp add: set_cell_def l l2 np_index_nonneg)
qed

lemma has_shape_update:
  assumes "has_shape sq k R C" and "i < k" and "x < R"
  shows "has_shape (sq[i := (sq ! i)[x := (sq ! i ! x)[y := v]]]) k R C"
  using assms by (auto simp: has_shape_iff nth_list_update)

lemma nth_update3:
  assumes "has_shape sq k R C" and "i < k" and "x < R" and "y < C"
    and "i' < k" and "x' < R" and "y' < C"
  shows "sq[i := (sq ! i)[x := (sq ! i ! x)[y := v]]] ! i' ! x' ! y' =
           (if i' = i \<and> x' = x \<and> y' = y then v else sq ! i' ! x' ! y')"
  using assms by (auto simp: has_shape_iff nth_list_update)

lemma set_cells_ok:
  assumes "0 < width b" and "0 < height b" and "i < k"
    and "\<forall>m\<in>set ms. row_ok b m"
    and "has_shape sq k (nat (width b)) (nat (height b))"
  shows "\<exists>sq'. set_cells b sq i ms v = Inr sq' \<and>
           has_shape sq' k (nat (width b)) (nat (height b)) \<and>
           (\<forall>i'<k. \<forall>x<nat (width b). \<forall>y<nat (height b).
              sq' ! i' ! x ! y =
                (if i' = i \<and> (\<exists>m\<in>set ms. at_pos b m x y) then v else sq ! i' ! x ! y))"
  using assms(4,5)
proof (induction ms arbitrary: sq)
  case Nil
  then show ?case by simp
next
  case (Cons m ms)
  let ?R = "nat (width b)" and ?C = "nat (height b)"
  let ?x = "nat (m div width b)" and ?y = "nat (m mod height b)"
  let ?sq1 = "sq[i := (sq ! i)[?x := (sq ! i ! ?x)[?y := v]]]"
  have r: "0 \<le> m div width b" "m div width b < int ?R"
    using Cons.prems(1) assms(1) by (simp_all add: row_ok_def)
  have c: "0 \<le> m mod height b" "m mod height b < int ?C"
    using assms(2) by simp_all
  have xy: "?x < ?R" "?y < ?C" using r c assms(1,2) by simp_all
  have 1: "set_cell sq i (np_floordiv m (width b)) (np_mod m (height b)) v = Inr ?sq1"
    using set_cell_ok [OF Cons.prems(2) assms(3) r c] assms(1,2)
    by (simp add: np_floordiv_def np_mod_def)
  have s1: "has_shape ?sq1 k ?R ?C" using Cons.prems(2) assms(3) xy(1) by (rule has_shape_update)
  from Cons.IH [OF _ s1] Cons.prems(1)
  obtain sq' where sq': "set_cells b ?sq1 i ms v = Inr sq'" "has_shape sq' k ?R ?C"
    and e: "\<forall>i'<k. \<forall>x<?R. \<forall>y<?C. sq' ! i' ! x ! y =
                (if i' = i \<and> (\<exists>m\<in>set ms. at_pos b m x y) then v else ?sq1 ! i' ! x ! y)"
    by auto
  have "\<forall>i'<k. \<forall>x<?R. \<forall>y<?C. sq' ! i' ! x ! y =
          (if i' = i \<and> (\<exists>m\<in>set (m # ms). at_pos b m x y) then v else sq ! i' ! x ! y)"
  proof (intro allI impI)
    fix i' x y assume b: "i' < k" "x < ?R" "y < ?C"
    have "?sq1 ! i' ! x ! y = (if i' = i \<and> x = ?x \<and> y = ?y then v else sq ! i' ! x ! y)"
      using Cons.prems(2) assms(3) xy b by (rule nth_update3)
    with e b show "sq' ! i' ! x ! y =
          (if i' = i \<and> (\<exists>m\<in>set (m # ms). at_pos b m x y) then v else sq ! i' ! x ! y)"
      by (auto simp: at_pos_def)
  qed
  with 1 sq' show ?case by simp
qed

lemma fill_planes_ok:
  assumes "0 < width b" and "0 < height b"
    and "\<forall>m\<in>set mvo. row_ok b m" and "\<forall>m\<in>set mvc. row_ok b m"
    and "\<forall>i\<in>set is. i < k"
    and "has_shape sq k (nat (width b)) (nat (height b))"
  shows "\<exists>sq'. fill_planes b sq mvo mvc is = Inr sq' \<and>
           has_shape sq' k (nat (width b)) (nat (height b)) \<and>
           (\<forall>i<k. \<forall>x<nat (width b). \<forall>y<nat (height b).
              sq' ! i ! x ! y =
                (if i \<in> set is \<and> (\<exists>m\<in>set (if i mod 2 = 0 then mvo else mvc). at_pos b m x y)
                 then 1 else sq ! i ! x ! y))"
  using assms(5,6)
proof (induction "is" arbitrary: sq)
  case Nil
  then show ?case by simp
next
  case (Cons j js)
  let ?R = "nat (width b)" and ?C = "nat (height b)"
  let ?ms = "if j mod 2 = 0 then mvo else mvc"
  have j: "j < k" using Cons.prems(1) by simp
  have ok: "\<forall>m\<in>set ?ms. row_ok b m" using assms(3,4) by simp
  from set_cells_ok [OF assms(1,2) j ok Cons.prems(2), of 1]
  obtain sq1 where sq1: "set_cells b sq j ?ms 1 = Inr sq1" "has_shape sq1 k ?R ?C"
    and e1: "\<forall>i'<k. \<forall>x<?R. \<forall>y<?C. sq1 ! i' ! x ! y =
                (if i' = j \<and> (\<exists>m\<in>set ?ms. at_pos b m x y) then 1 else sq ! i' ! x ! y)"
    by blast
  from Cons.IH [OF _ sq1(2)] Cons.prems(1)
  obtain sq' where sq': "fill_planes b sq1 mvo mvc js = Inr sq'" "has_shape sq' k ?R ?C"
    and e: "\<forall>i<k. \<forall>x<?R. \<forall>y<?C. sq' ! i ! x ! y =
                (if i \<in> set js \<and> (\<exists>m\<in>set (if i mod 2 = 0 then mvo else mvc). at_pos b m x y)
                 then 1 else sq1 ! i ! x ! y)"
    by auto
  have "\<forall>i<k. \<forall>x<?R. \<forall>y<?C. sq' ! i ! x ! y =
          (if i \<in> set (j # js) \<and> (\<exists>m\<in>set (if i mod 2 = 0 then mvo else mvc). at_pos b m x y)
           then 1 else sq ! i ! x ! y)"
    using e e1 by auto
  with sq1(1) sq' show ?case by simp
qed

lemma remove_older_ok:
  assumes "0 < width b" and "0 < height b"
    and "\<forall>i\<in>set is. i < k \<and> (snd (states_sequence b ! i) \<noteq> -1 \<longrightarrow>
            row_ok b (fst (states_sequence b ! i)))"
    and "has_shape sq k (nat (width b)) (nat (height b))"
  shows "\<exists>sq'. remove_older b sq is = Inr sq' \<and>
           has_shape sq' k (nat (width b)) (nat (height b)) \<and>
           (\<forall>i<k. \<forall>x<nat (width b). \<forall>y<nat (height b).
              sq' ! i ! x ! y =
                (if i \<in> set is \<and> i < feature_planes \<and> snd (states_sequence b ! i) \<noteq> -1 \<and>
                    at_pos b (fst (states_sequence b ! i)) x y
                 then 0 else sq ! i ! x ! y))"
  using assms(3,4)
proof (induction "is" arbitrary: sq)
  case Nil
  then show ?case by simp
next
  case (Cons j js)
  let ?R = "nat (width b)" and ?C = "nat (height b)"
  obtain move player where mp: "states_sequence b ! j = (move, player)"
    by (cases "states_sequence b ! j")
  have j: "j < k" using Cons.prems(1) by simp
  show ?case
  proof (cases "player \<noteq> -1 \<and> j < feature_planes")
    case True
    then have ok: "row_ok b move" using Cons.prems(1) mp by simp
    let ?x = "nat (move div width b)" and ?y = "nat (move mod height b)"
    let ?sq1 = "sq[j := (sq ! j)[?x := (sq ! j ! ?x)[?y := 0]]]"
    have r: "0 \<le> move div width b" "move div width b < int ?R"
      using ok assms(1) by (simp_all add: row_ok_def)
    have c: "0 \<le> move mod height b" "move mod height b < int ?C"
      using assms(2) by simp_all
    have xy: "?x < ?R" "?y < ?C" using r c assms(1,2) by simp_all
    have 1: "set_cell sq j (move div width b) (move mod height b) 0 = Inr ?sq1"
      using set_cell_ok [OF Cons.prems(2) j r c] by simp
    have s1: "has_shape ?sq1 k ?R ?C" using Cons.prems(2) j xy(1) by (rule has_shape_update)
    from Cons.IH [OF _ s1] Cons.prems(1)
    obtain sq' where sq': "remove_older b ?sq1 js = Inr sq'" "has_shape sq' k ?R ?C"
      and e: "\<forall>i<k. \<forall>x<?R. \<forall>y<?C. sq' ! i ! x ! y =
                (if i \<in> set js \<and> i < feature_planes \<and> snd (states_sequence b ! i) \<noteq> -1 \<and>
                    at_pos b (fst (states_sequence b ! i)) x y
                 then 0 else ?sq1 ! i ! x ! y)"
      by auto
    have "\<forall>i<k. \<forall>x<?R. \<forall>y<?C. sq' ! i ! x ! y =
            (if i \<in> set (j # js) \<and> i < feature_planes \<and> snd (states_sequence b ! i) \<noteq> -1 \<and>
                at_pos b (fst (states_sequence b ! i)) x y
             then 0 else sq ! i ! x ! y)"
    proof (intro allI impI)
      fix i x y assume b: "i < k" "x < ?R" "y < ?C"
      have "?sq1 ! i ! x ! y = (if i = j \<and> x = ?x \<and> y = ?y then 0 else sq ! i ! x ! y)"
        using Cons.prems(2) j xy b by (rule nth_update3)
      with e b True mp show "sq' ! i ! x ! y =
            (if i \<in> set (j # js) \<and> i < feature_planes \<and> snd (states_sequence b ! i) \<noteq> -1 \<and>
                at_pos b (fst (states_sequence b ! i)) x y
             then 0 else sq ! i ! x ! y)"
        by (auto simp: at_pos_def)
    qed
    with 1 sq' True mp assms(1,2) show ?thesis by simp
  next
    case False
    from Cons.IH [OF _ Cons.prems(2)] Cons.prems(1)
    obtain sq' where sq': "remove_older b sq js = Inr sq'" "has_shape sq' k ?R ?C"
      and e: "\<forall>i<k. \<forall>x<?R. \<forall>y<?C. sq' ! i ! x ! y =
                (if i \<in> set js \<and> i < feature_planes \<and> snd (states_sequence b ! i) \<noteq> -1 \<and>
                    at_pos b (fst (states_sequence b ! i)) x y
                 then 0 else sq ! i ! x ! y)"
      by auto
    have "\<forall>i<k. \<forall>x<?R. \<forall>y<?C. sq' ! i ! x ! y =
            (if i \<in> set (j # js) \<and> i < feature_planes \<and> snd (states_sequence b ! i) \<noteq> -1 \<and>
                at_pos b (fst (states_sequence b ! i)) x y
             then 0 else sq ! i ! x ! y)"
      using e False mp by auto
    with sq' False mp show ?thesis by auto
  qed
qed

lemma history_inv_init_board:
  "init_board b0 sp = Inr b \<Longrightarrow> history_inv b"
  by (auto simp: init_board_def history_inv_def list_all_iff split: if_splits sum.splits)

lemma history_inv_do_move:
  assumes "history_inv b" and "board_inv b" and "do_move b m = Inr b'"
  shows "history_inv b'"
proof -
  have m: "m \<in> set (availables b)" using assms(3) by (rule do_move_Inr_available)
  have b': "b' = b\<lparr>states := AList.update m (current_player b) (states b),
                  states_sequence := appendleft (m, current_player b) (states_sequence b),
                  availables := remove1 m (availables b),
                  current_player := (if current_player b = 2 then 1 else 2),
                  last_move := m\<rparr>"
    using assms(3) do_move_available [OF m] by simp
  have k: "keys b' = insert m (keys b)"
    by (simp add: b' keys_def dom_update)
  have c: "current_player b \<in> {1, 2}" using assms(2) by (simp add: board_inv_def)
  have "set (states_sequence b') \<subseteq> insert (m, current_player b) (set (states_sequence b))"
    by (auto simp: b' appendleft_def dest: in_set_takeD)
  then show ?thesis
    using assms(1) c unfolding history_inv_def list_all_iff k by fastforce
qed

lemma history_inv_do_moves:
  "history_inv b \<Longrightarrow> board_inv b \<Longrightarrow> do_moves b ms = Inr b' \<Longrightarrow> history_inv b'"
proof (induction ms arbitrary: b)
  case Nil
  then show ?case by simp
next
  case (Cons m ms)
  then show ?case
    by (auto split: sum.splits dest: history_inv_do_move board_inv_do_move)
qed

lemma has_shape_zeros:
  "has_shape (replicate k (replicate R (replicate C 0))) k R C"
  by (simp add: has_shape_iff)

lemma nth_zeros:
  "i < k \<Longrightarrow> x < R \<Longrightarrow> y < C \<Longrightarrow>
     replicate k (replicate R (replicate C (0::real))) ! i ! x ! y = 0"
  by simp

lemma final_step:
  assumes "has_shape sq (Suc feature_planes) R C"
  shows "has_shape (map rev (if c then sq[feature_planes := replicate R (replicate C 1)] else sq))
           (Suc feature_planes) R C \<and>
         (\<forall>i<feature_planes. \<forall>x<R. \<forall>y<C.
            map rev (if c then sq[feature_planes := replicate R (replicate C 1)] else sq)
              ! i ! (R - 1 - x) ! y = sq ! i ! x ! y)"
proof -
  let ?sq = "if c then sq[feature_planes := replicate R (replicate C 1)] else sq"
  have s: "has_shape ?sq (Suc feature_planes) R C"
    using assms by (auto simp: has_shape_iff nth_list_update)
  have e: "\<forall>i<feature_planes. ?sq ! i = sq ! i" by simp
  have 1: "has_shape (map rev ?sq) (Suc feature_planes) R C"
    using s by (auto simp: has_shape_iff rev_nth)
  have 2: "\<forall>i<feature_planes. \<forall>x<R. \<forall>y<C. map rev ?sq ! i ! (R - 1 - x) ! y = sq ! i ! x ! y"
  proof (intro allI impI)
    fix i x y assume a: "i < feature_planes" "x < R" "y < C"
    have l: "length ?sq = Suc feature_planes" "length (?sq ! i) = R"
      using s a(1) by (simp_all add: has_shape_iff)
    have "map rev ?sq ! i = rev (?sq ! i)" using a(1) l(1) by simp
    moreover have "rev (?sq ! i) ! (R - 1 - x) = ?sq ! i ! x"
      using a(2) l(2) by (simp add: rev_nth)
    ultimately show "map rev ?sq ! i ! (R - 1 - x) ! y = sq ! i ! x ! y"
      using e a(1) by simp
  qed
  from 1 2 show ?thesis by blast
qed

lemma keys_row_ok:
  assumes "0 < width b" and "height b \<le> width b" and "board_inv b" and "m \<in> keys b"
  shows "row_ok b m"
proof -
  from keys_in_range [OF assms(3,4)] have "0 \<le> m" "m < width b * height b" by simp_all
  with row_in_range [OF assms(1)] have "0 \<le> m div width b" "m div width b < height b"
    by simp_all
  with assms(2) show ?thesis by (simp add: row_ok_def)
qed

lemma current_state_entries:
  assumes w: "0 < width b" and h: "0 < height b" and hw: "height b \<le> width b"
    and inv: "board_inv b" and hist: "history_inv b"
  shows "\<exists>sq. current_state b = Inr sq \<and>
           has_shape sq (Suc feature_planes) (nat (width b)) (nat (height b)) \<and>
           (\<forall>i<feature_planes. \<forall>x<nat (width b). \<forall>y<nat (height b).
              sq ! i ! (nat (width b) - 1 - x) ! y =
                (if i mod 2 = 0 \<and> i < length (states_sequence b) - 2 \<and>
                    snd (states_sequence b ! i) \<noteq> -1 \<and>
                    at_pos b (fst (states_sequence b ! i)) x y
                 then 0
                 else if \<exists>(m, p)\<in>set (states b).
                           (if i mod 2 = 0 then p \<noteq> current_player b else p = current_player b) \<and>
                           at_pos b m x y
                 then 1 else 0))"
proof -
  let ?R = "nat (width b)" and ?C = "nat (height b)"
  let ?k = "Suc feature_planes"
  let ?z = "replicate ?k (replicate ?R (replicate ?C (0::real)))"
  let ?mc = "map fst (filter (\<lambda>(m, p). p = current_player b) (states b))"
  let ?mo = "map fst (filter (\<lambda>(m, p). p \<noteq> current_player b) (states b))"
  let ?is = "filter (\<lambda>i. i mod 2 = 0) [0 ..< length (states_sequence b) - 2]"
  let ?zero = "\<lambda>i x y. i mod 2 = 0 \<and> i < length (states_sequence b) - 2 \<and>
                    snd (states_sequence b ! i) \<noteq> -1 \<and>
                    at_pos b (fst (states_sequence b ! i)) x y"
  let ?one = "\<lambda>i x y. \<exists>(m, p)\<in>set (states b).
                 (if i mod 2 = 0 then p \<noteq> current_player b else p = current_player b) \<and>
                 at_pos b m x y"
  have z: "np_zeros (int feature_planes + 1) (width b) (height b) = Inr ?z"
    using w h by (simp add: np_zeros_def nat_add_distrib)
  have sz: "has_shape ?z ?k ?R ?C" by (rule has_shape_zeros)
  have len: "length (states_sequence b) = feature_planes"
    using inv by (simp add: board_inv_def)
  have "\<exists>sq. (if states b \<noteq> [] then
                 (case fill_planes b ?z ?mo ?mc [0 ..< feature_planes] of
                    Inl e \<Rightarrow> Inl e
                  | Inr sq \<Rightarrow> remove_older b sq ?is)
               else Inr ?z) = Inr sq \<and>
             has_shape sq ?k ?R ?C \<and>
             (\<forall>i<feature_planes. \<forall>x<?R. \<forall>y<?C.
                sq ! i ! x ! y = (if ?zero i x y then 0 else if ?one i x y then 1 else 0))"
  proof (cases "states b = []")
    case True
    have "\<forall>i<feature_planes. \<forall>x<?R. \<forall>y<?C.
            ?z ! i ! x ! y = (if ?zero i x y then 0 else if ?one i x y then 1 else 0)"
      using True by (simp add: nth_zeros del: replicate.simps)
    with True sz show ?thesis by (simp del: replicate.simps)
  next
    case False
    have oko: "\<forall>m\<in>set ?mo. row_ok b m" and okc: "\<forall>m\<in>set ?mc. row_ok b m"
      using keys_row_ok [OF w hw inv] by (auto simp: keys_def intro: rev_image_eqI)
    have "\<forall>i\<in>set [0 ..< feature_planes]. i < ?k" by simp
    from fill_planes_ok [OF w h oko okc this sz]
    obtain sq1 where sq1: "fill_planes b ?z ?mo ?mc [0 ..< feature_planes] = Inr sq1"
      "has_shape sq1 ?k ?R ?C"
      and e1: "\<forall>i<?k. \<forall>x<?R. \<forall>y<?C. sq1 ! i ! x ! y =
                (if i \<in> set [0 ..< feature_planes] \<and>
                    (\<exists>m\<in>set (if i mod 2 = 0 then ?mo else ?mc). at_pos b m x y)
                 then 1 else ?z ! i ! x ! y)"
      by blast
    have okh: "\<forall>i\<in>set ?is. i < ?k \<and> (snd (states_sequence b ! i) \<noteq> -1 \<longrightarrow>
            row_ok b (fst (states_sequence b ! i)))"
    proof
      fix i assume "i \<in> set ?is"
      then have i: "i < length (states_sequence b) - 2" by simp
      then have "states_sequence b ! i \<in> set (states_sequence b)" by simp
      with hist have "snd (states_sequence b ! i) \<noteq> -1 \<longrightarrow> fst (states_sequence b ! i) \<in> keys b"
        by (auto simp: history_inv_def list_all_iff)
      with i len keys_row_ok [OF w hw inv]
      show "i < ?k \<and> (snd (states_sequence b ! i) \<noteq> -1 \<longrightarrow>
            row_ok b (fst (states_sequence b ! i)))"
        by auto
    qed
    from remove_older_ok [OF w h okh sq1(2)]
    obtain sq2 where sq2: "remove_older b sq1 ?is = Inr sq2" "has_shape sq2 ?k ?R ?C"
      and e2: "\<forall>i<?k. \<forall>x<?R. \<forall>y<?C. sq2 ! i ! x ! y =
                (if i \<in> set ?is \<and> i < feature_planes \<and> snd (states_sequence b ! i) \<noteq> -1 \<and>
                    at_pos b (fst (states_sequence b ! i)) x y
                 then 0 else sq1 ! i ! x ! y)"
      by blast
    have "\<forall>i<feature_planes. \<forall>x<?R. \<forall>y<?C.
            sq2 ! i ! x ! y = (if ?zero i x y then 0 else if ?one i x y then 1 else 0)"
    proof (intro allI impI)
      fix i x y assume a: "i < feature_planes" "x < ?R" "y < ?C"
      have one: "(\<exists>m\<in>set (if i mod 2 = 0 then ?mo else ?mc). at_pos b m x y) \<longleftrightarrow> ?one i x y"
        by (auto simp: image_iff) 
      have "sq2 ! i ! x ! y = (if ?zero i x y then 0 else sq1 ! i ! x ! y)"
        using e2 a by auto
      moreover have "?z ! i ! x ! y = 0"
        using a by (intro nth_zeros) simp_all
      then have "sq1 ! i ! x ! y = (if ?one i x y then 1 else 0)"
        using e1 a one by (simp del: replicate.simps)
      ultimately show "sq2 ! i ! x ! y = (if ?zero i x y then 0 else if ?one i x y then 1 else 0)"
        by simp
    qed
    with sq1(1) sq2 False show ?thesis by simp
  qed
  then obtain sq where sq: "(if states b \<noteq> [] then
                 (case fill_planes b ?z ?mo ?mc [0 ..< feature_planes] of
                    Inl e \<Rightarrow> Inl e
                  | Inr sq \<Rightarrow> remove_older b sq ?is)
               else Inr ?z) = Inr sq"
    and ssq: "has_shape sq ?k ?R ?C"
    and esq: "\<forall>i<feature_planes. \<forall>x<?R. \<forall>y<?C.
                sq ! i ! x ! y = (if ?zero i x y then 0 else if ?one i x y then 1 else 0)"
    by blast
  let ?res = "map rev (if length (states b) mod 2 = 0
                 then sq[feature_planes := replicate ?R (replicate ?C 1)] else sq)"
  have "current_state b =
          (case (if states b \<noteq> [] then
                   (case fill_planes b ?z ?mo ?mc [0 ..< feature_planes] of
                      Inl e \<Rightarrow> Inl e
                    | Inr sq \<Rightarrow> remove_older b sq ?is)
                 else Inr ?z) of
             Inl e \<Rightarrow> Inl e
           | Inr sq \<Rightarrow>
               Inr (map rev (if length (states b) mod 2 = 0
                 then sq[feature_planes := replicate ?R (replicate ?C 1)] else sq)))"
    by (simp only: current_state_def z sum.case Let_def)
  then have cs: "current_state b = Inr ?res"
    by (simp only: sq sum.case)
  from final_step [OF ssq, of "length (states b) mod 2 = 0"] esq
  have "has_shape ?res ?k ?R ?C"
    and "\<forall>i<feature_planes. \<forall>x<?R. \<forall>y<?C. ?res ! i ! (?R - 1 - x) ! y =
           (if ?zero i x y then 0 else if ?one i x y then 1 else 0)"
    by simp_all
  with cs show ?thesis by blast
qed

lemma init_board65: "init_board (Board 6 5 5) 0 = Inr board65"
  by (simp add: init_board_def Board_def board65_def py_nth_def players_def)

lemma do_moves_board65_played: "do_moves board65 [0, 29] = Inr board65_played"
  by code_simp

lemma current_state_tall_board: "current_state board56_played = Inl IndexError"
  by code_simp

lemma at_pos_square:
  assumes w: "0 < width b" and sq: "height b = width b"
    and m: "0 \<le> m" "m < width b * height b" and m': "0 \<le> m'"
  shows "at_pos b m' (nat (m div width b)) (nat (m mod width b)) \<longleftrightarrow> m' = m"
proof
  assume "at_pos b m' (nat (m div width b)) (nat (m mod width b))"
  then have "nat (m' div width b) = nat (m div width b)"
    "nat (m' mod width b) = nat (m mod width b)"
    by (simp_all add: at_pos_def sq)
  moreover have "0 \<le> m' div width b" "0 \<le> m div width b"
    using w m m' by (simp_all add: pos_imp_zdiv_nonneg_iff)
  moreover have "0 \<le> m' mod width b" "0 \<le> m mod width b" using w by simp_all
  ultimately have "m' div width b = m div width b" "m' mod width b = m mod width b"
    by simp_all
  then show "m' = m" by (metis div_mult_mod_eq)
next
  assume "m' = m"
  then show "at_pos b m' (nat (m div width b)) (nat (m mod width b))"
    by (simp add: at_pos_def sq)
qed

subsection \<open>Shape\<close>

text \<open>
  Claim C4, as stated, fails: the planes have \<open>width\<close> rows of \<open>height\<close> entries, as
  the docstring of \<open>current_state\<close> says, not \<open>height\<close> rows of \<open>width\<close> entries. On
  the empty board 6 wide and 5 high the array returned is not of shape 9 by 5 by 6.
\<close>

theorem current_state_shape_counterexample:
  "0 < width board65 \<and> 0 < height board65 \<and>
   returns_shape (current_state board65) 9 (nat (width board65)) (nat (height board65)) \<and>
   \<not> returns_shape (current_state board65) 9 (nat (height board65)) (nat (width board65))"
  by code_simp

text \<open>
  Claim C4, amended: on every board of positive width and height with
  \<open>height \<le> width\<close> that satisfies the invariants, \<open>current_state\<close> returns an array
  of \<open>feature_planes + 1 = 9\<close> planes, each of \<open>width\<close> rows and \<open>height\<close> columns
  (which is \<open>height\<close> by \<open>width\<close> when the board is square).
\<close>

theorem current_state_shape:
  assumes "0 < width b" and "0 < height b" and "height b \<le> width b"
    and "board_inv b" and "history_inv b"
  shows "returns_shape (current_state b) (feature_planes + 1) (nat (width b)) (nat (height b))"
  using current_state_entries [OF assms] by (auto simp: returns_shape_def)

theorem current_state_shape_witness:
  "0 < width board65_played \<and> 0 < height board65_played \<and>
   height board65_played \<le> width board65_played \<and>
   board_inv board65_played \<and> history_inv board65_played \<and>
   returns_shape (current_state board65_played) 9 6 5"
proof -
  have d: "width board65_played = 6" "height board65_played = 5" by code_simp+
  have i: "board_inv board65_played"
    using board_inv_init_board [OF init_board65] do_moves_board65_played
    by (rule board_inv_do_moves)
  have h: "history_inv board65_played"
    using history_inv_init_board [OF init_board65] board_inv_init_board [OF init_board65]
      do_moves_board65_played
    by (rule history_inv_do_moves)
  show ?thesis
    using current_state_shape [OF _ _ _ i h] i h by (simp add: d feature_planes_def)
qed

subsection \<open>Planes\<close>

text \<open>
  Claim C2, as stated, fails: after the single move 112 on the default board, the
  opponent of the player to move occupies cell 112, and plane 0 is zero everywhere.
  The loop "remove older moves" clears, in planes 0, 2 and 4, the move of the history
  entry with the plane's index.
\<close>

theorem current_state_planes_counterexample:
  "states first_move_board \<noteq> [] \<and> current_player first_move_board = 2 \<and>
   map_of (states first_move_board) 112 = Some 1 \<and>
   result_plane (current_state first_move_board) 0 = Some (replicate 15 (replicate 15 0))"
  by code_simp

text \<open>
  Claim C2, amended: on every square board that satisfies the invariants and has at
  least one move played, \<open>current_state\<close> returns, and for every plane \<open>i < 8\<close> and
  every cell \<open>m\<close> the entry of plane \<open>i\<close> for \<open>m\<close> (row \<open>width - 1 - m div width\<close>,
  column \<open>m mod width\<close>) is 1 exactly when: \<open>i\<close> is odd and the player to move
  occupies \<open>m\<close>; or \<open>i\<close> is even, another player occupies \<open>m\<close>, and \<open>m\<close> is not the
  move of history entry \<open>i\<close> with \<open>i \<in> {0, 2, 4}\<close> and that entry a played move.
  Otherwise the entry is 0.
\<close>

theorem current_state_planes:
  assumes w: "0 < width b" and sq: "height b = width b"
    and inv: "board_inv b" and hist: "history_inv b" and ne: "states b \<noteq> []"
  shows "\<exists>sq. current_state b = Inr sq \<and>
           (\<forall>i<feature_planes. \<forall>m. 0 \<le> m \<and> m < width b * height b \<longrightarrow>
              plane_entry b sq i m = expected_plane b i m)"
proof -
  have h: "0 < height b" "height b \<le> width b" using w sq by simp_all
  from current_state_entries [OF w h inv hist]
  obtain sq where cs: "current_state b = Inr sq"
    and e: "\<forall>i<feature_planes. \<forall>x<nat (width b). \<forall>y<nat (height b).
              sq ! i ! (nat (width b) - 1 - x) ! y =
                (if i mod 2 = 0 \<and> i < length (states_sequence b) - 2 \<and>
                    snd (states_sequence b ! i) \<noteq> -1 \<and>
                    at_pos b (fst (states_sequence b ! i)) x y
                 then 0
                 else if \<exists>(m, p)\<in>set (states b).
                           (if i mod 2 = 0 then p \<noteq> current_player b else p = current_player b) \<and>
                           at_pos b m x y
                 then 1 else 0)"
    by blast
  have d: "distinct (map fst (states b))" using inv by (simp add: board_inv_def)
  have len: "length (states_sequence b) = feature_planes"
    using inv by (simp add: board_inv_def)
  have "plane_entry b sq i m = expected_plane b i m"
    if i: "i < feature_planes" and m: "0 \<le> m" "m < width b * height b" for i m
  proof -
    let ?x = "nat (m div width b)" and ?y = "nat (m mod width b)"
    have r: "0 \<le> m div width b" "m div width b < height b"
      using row_in_range [OF w m] by simp_all
    have x: "?x < nat (width b)" using r sq by simp
    have y: "?y < nat (height b)" using w sq by simp
    have pos: "at_pos b m' ?x ?y \<longleftrightarrow> m' = m" if "m' \<in> keys b" for m'
      using keys_in_range [OF inv that] by (intro at_pos_square [OF w sq m]) simp
    have one: "(\<exists>(m', p)\<in>set (states b). Q p \<and> at_pos b m' ?x ?y) \<longleftrightarrow>
               (\<exists>p. map_of (states b) m = Some p \<and> Q p)" for Q
    proof
      assume "\<exists>(m', p)\<in>set (states b). Q p \<and> at_pos b m' ?x ?y"
      then obtain m' p where mp: "(m', p) \<in> set (states b)" "Q p" "at_pos b m' ?x ?y"
        by blast
      then have "m' \<in> keys b" by (force simp: keys_def)
      with pos mp(3) have "m' = m" by simp
      with mp d show "\<exists>p. map_of (states b) m = Some p \<and> Q p" by auto
    next
      assume "\<exists>p. map_of (states b) m = Some p \<and> Q p"
      then obtain p where p: "map_of (states b) m = Some p" "Q p" by blast
      then have "(m, p) \<in> set (states b)" by (simp add: map_of_SomeD)
      moreover have "at_pos b m ?x ?y" by (simp add: at_pos_def sq)
      ultimately show "\<exists>(m', p)\<in>set (states b). Q p \<and> at_pos b m' ?x ?y"
        using p(2) by blast
    qed
    have zero: "at_pos b (fst (states_sequence b ! i)) ?x ?y \<longleftrightarrow>
                fst (states_sequence b ! i) = m"
      if "i < length (states_sequence b) - 2" "snd (states_sequence b ! i) \<noteq> -1"
    proof -
      from that(1) have "states_sequence b ! i \<in> set (states_sequence b)" by simp
      with hist that(2) have "fst (states_sequence b ! i) \<in> keys b"
        by (auto simp: history_inv_def list_all_iff)
      then show ?thesis by (rule pos)
    qed
    have "plane_entry b sq i m = sq ! i ! (nat (width b) - 1 - ?x) ! ?y"
      by (simp add: plane_entry_def)
    also have "\<dots> = (if i mod 2 = 0 \<and> i < length (states_sequence b) - 2 \<and>
                    snd (states_sequence b ! i) \<noteq> -1 \<and>
                    at_pos b (fst (states_sequence b ! i)) ?x ?y
                 then 0
                 else if \<exists>(m, p)\<in>set (states b).
                           (if i mod 2 = 0 then p \<noteq> current_player b else p = current_player b) \<and>
                           at_pos b m ?x ?y
                 then 1 else 0)"
      using e i x y by blast
    also have "\<dots> = expected_plane b i m"
      unfolding one using zero
      by (cases "map_of (states b) m") (auto simp: expected_plane_def)
    finally show ?thesis .
  qed
  with cs show ?thesis by blast
qed

lemma do_moves_midgame_board: "do_moves board15 [112, 113, 97] = Inr midgame_board"
  by code_simp

theorem current_state_planes_witness:
  "0 < width midgame_board \<and> height midgame_board = width midgame_board \<and>
   board_inv midgame_board \<and> history_inv midgame_board \<and> states midgame_board \<noteq> [] \<and>
   (\<exists>sq. current_state midgame_board = Inr sq \<and>
      plane_entry midgame_board sq 0 97 = 0 \<and> plane_entry midgame_board sq 0 112 = 1 \<and>
      plane_entry midgame_board sq 2 97 = 1 \<and> plane_entry midgame_board sq 2 112 = 0 \<and>
      plane_entry midgame_board sq 6 97 = 1 \<and> plane_entry midgame_board sq 6 112 = 1 \<and>
      plane_entry midgame_board sq 3 113 = 1 \<and> plane_entry midgame_board sq 3 112 = 0)"
proof -
  have d: "width midgame_board = 15" "height midgame_board = 15" "states midgame_board \<noteq> []"
    by code_simp+
  have i: "board_inv midgame_board"
    using board_inv_board15 do_moves_midgame_board by (rule board_inv_do_moves)
  have h: "history_inv midgame_board"
    using history_inv_init_board [OF init_board15] board_inv_board15 do_moves_midgame_board
    by (rule history_inv_do_moves)
  have e: "expected_plane midgame_board 0 97 = 0" "expected_plane midgame_board 0 112 = 1"
    "expected_plane midgame_board 2 97 = 1" "expected_plane midgame_board 2 112 = 0"
    "expected_plane midgame_board 6 97 = 1" "expected_plane midgame_board 6 112 = 1"
    "expected_plane midgame_board 3 113 = 1" "expected_plane midgame_board 3 112 = 0"
    by code_simp+
  from current_state_planes [OF _ _ i h d(3)]
  obtain sq where sq: "current_state midgame_board = Inr sq"
    "\<forall>i<feature_planes. \<forall>m. 0 \<le> m \<and> m < 225 \<longrightarrow>
        plane_entry midgame_board sq i m = expected_plane midgame_board i m"
    by (auto simp: d)
  from sq(2) have "plane_entry midgame_board sq 0 97 = 0 \<and> plane_entry midgame_board sq 0 112 = 1 \<and>
      plane_entry midgame_board sq 2 97 = 1 \<and> plane_entry midgame_board sq 2 112 = 0 \<and>
      plane_entry midgame_board sq 6 97 = 1 \<and> plane_entry midgame_board sq 6 112 = 1 \<and>
      plane_entry midgame_board sq 3 113 = 1 \<and> plane_entry midgame_board sq 3 112 = 0"
    by (simp add: e feature_planes_def)
  with sq(1) i h show ?thesis by (auto simp: d)
qed

section \<open>Outcome labels of self-play\<close>

declare self_play_loop.simps [simp del]

lemma do_move_decreases:
  assumes "do_move b m = Inr b'"
  shows "length (availables b') < length (availables b)"
proof -
  have m: "m \<in> set (availables b)" using assms by (rule do_move_Inr_available)
  then have "availables b' = remove1 m (availables b)"
    using assms by (auto simp: do_move_available)
  with m length_pos_if_in_set [OF m] show ?thesis
    by (simp add: length_remove1)
qed

lemma game_end_not_ended:
  "game_end b ms = Inr (False, w) \<Longrightarrow> w = -1"
  by (auto simp: game_end_def split: sum.splits prod.splits if_splits)

lemma self_play_loop_trace:
  "self_play_loop order get_action st b sts prs cps = Inr (w, sts', prs', cps') \<Longrightarrow>
   \<exists>tr encs. tr \<noteq> [] \<and> hd tr = (b, st) \<and> episode order get_action tr w \<and>
     length encs = length tr \<and>
     (\<forall>k<length tr. current_state (fst (tr ! k)) = Inr (encs ! k)) \<and>
     sts' = sts @ encs \<and>
     prs' = prs @ map (\<lambda>(bk, sk). snd (fst (get_action sk bk))) tr \<and>
     cps' = cps @ map (\<lambda>(bk, sk). current_player bk) tr"
proof (induction "length (availables b)" arbitrary: st b sts prs cps rule: less_induct)
  case less
  obtain move probs st1 where ga: "get_action st b = ((move, probs), st1)"
    by (metis prod.exhaust)
  from less.prems(1) obtain enc where enc: "current_state b = Inr enc"
    by (subst (asm) self_play_loop.simps) (auto simp: ga split: sum.splits)
  from less.prems(1) obtain b1 where dm: "do_move b move = Inr b1"
    by (subst (asm) self_play_loop.simps) (auto simp: ga enc split: sum.splits)
  from less.prems(1) obtain en wn where ge: "game_end b1 (order b1) = Inr (en, wn)"
    by (subst (asm) self_play_loop.simps) (auto simp: ga enc dm split: sum.splits)
  show ?case
  proof (cases en)
    case True
    with less.prems have r: "w = wn" "sts' = sts @ [enc]" "prs' = prs @ [probs]"
      "cps' = cps @ [current_player b]"
      by (subst (asm) self_play_loop.simps; simp add: ga enc dm ge)+
    have "episode order get_action [(b, st)] w"
      using True ge by (simp add: ga dm r(1))
    then show ?thesis
      using r enc ga
      by (intro exI [of _ "[(b, st)]"] exI [of _ "[enc]"]) simp
  next
    case False
    with less.prems(1)
    have loop: "self_play_loop order get_action st1 b1 (sts @ [enc]) (prs @ [probs])
            (cps @ [current_player b]) = Inr (w, sts', prs', cps')"
      by (subst (asm) self_play_loop.simps) (simp add: ga enc dm ge)
    have "length (availables b1) < length (availables b)"
      using dm by (rule do_move_decreases)
    from less.hyps [OF this loop]
    obtain tr encs where tr: "tr \<noteq> []" "hd tr = (b1, st1)" "episode order get_action tr w"
      "length encs = length tr"
      "\<forall>k<length tr. current_state (fst (tr ! k)) = Inr (encs ! k)"
      "sts' = (sts @ [enc]) @ encs"
      "prs' = (prs @ [probs]) @ map (\<lambda>(bk, sk). snd (fst (get_action sk bk))) tr"
      "cps' = (cps @ [current_player b]) @ map (\<lambda>(bk, sk). current_player bk) tr"
      by blast
    from tr(1,2) obtain rest where rest: "tr = (b1, st1) # rest"
      by (cases tr) auto
    have wn: "wn = -1" using ge False by (auto dest: game_end_not_ended)
    have ep: "episode order get_action ((b, st) # tr) w"
      using tr(3) ge False wn by (simp add: rest ga dm)
    have cs: "\<forall>k<length ((b, st) # tr). current_state (fst (((b, st) # tr) ! k))
                = Inr ((enc # encs) ! k)"
      using tr(5) enc by (auto simp: nth_Cons split: nat.splits)
    show ?thesis
      using ep cs tr(4,6,7,8) ga
      by (intro exI [of _ "(b, st) # tr"] exI [of _ "enc # encs"]) simp
  qed
qed

lemma length_mask_set: "length (mask_set zs sel v) = min (length zs) (length sel)"
  by (simp add: mask_set_def)

lemma nth_mask_set:
  "k < length zs \<Longrightarrow> k < length sel \<Longrightarrow>
     mask_set zs sel v ! k = (if sel ! k then v else zs ! k)"
  by (simp add: mask_set_def)

lemma length_winners_z: "length (winners_z w cps) = length cps"
  by (simp add: winners_z_def Let_def length_mask_set)

lemma nth_winners_z:
  "k < length cps \<Longrightarrow>
     winners_z w cps ! k = (if w = -1 then 0 else if cps ! k = w then 1 else -1)"
  by (simp add: winners_z_def Let_def nth_mask_set length_mask_set)

text \<open>
  Claim C5: when the self-play loop of \<open>start_self_play\<close> completes with winner
  \<open>winner\<close>, there is the episode \<open>tr\<close> of boards (and agent states) before each ply,
  starting at the board after \<open>init_board\<close>; the recorded mover \<open>cps ! k\<close> is the
  \<open>current_player\<close> of the board before ply \<open>k\<close>, the recorded state is the encoding
  of that board and the recorded probabilities are the agent's for it;
  \<open>start_self_play\<close> returns one triple per ply, and triple \<open>k\<close> has the label 1 if
  the mover of ply \<open>k\<close> is the winner, -1 if there is a winner and it is not that
  mover, and 0 if \<open>winner = -1\<close> (a draw).
\<close>

theorem self_play_labels:
  assumes "init_board b0 0 = Inr b"
    and "self_play_loop order get_action st b [] [] [] = Inr (winner, sts, prs, cps)"
  shows "\<exists>triples tr.
           start_self_play order get_action st b0 = Inr (winner, triples) \<and>
           length triples = length cps \<and> length tr = length cps \<and>
           hd tr = (b, st) \<and> episode order get_action tr winner \<and>
           (\<forall>k<length cps.
              cps ! k = current_player (fst (tr ! k)) \<and>
              current_state (fst (tr ! k)) = Inr (sts ! k) \<and>
              prs ! k = snd (fst (get_action (snd (tr ! k)) (fst (tr ! k)))) \<and>
              triples ! k = (sts ! k, prs ! k,
                (if winner = -1 then 0
                 else if current_player (fst (tr ! k)) = winner then 1 else -1)))"
proof -
  from self_play_loop_trace [OF assms(2)]
  obtain tr encs where tr: "tr \<noteq> []" "hd tr = (b, st)" "episode order get_action tr winner"
    "length encs = length tr"
    "\<forall>k<length tr. current_state (fst (tr ! k)) = Inr (encs ! k)"
    "sts = encs"
    "prs = map (\<lambda>(bk, sk). snd (fst (get_action sk bk))) tr"
    "cps = map (\<lambda>(bk, sk). current_player bk) tr"
    by auto
  have l: "length sts = length cps" "length prs = length cps" "length tr = length cps"
    using tr(4,6,7,8) by simp_all
  let ?t = "zip sts (zip prs (winners_z winner cps))"
  have 1: "start_self_play order get_action st b0 = Inr (winner, ?t)"
    by (simp add: start_self_play_def assms)
  have 2: "length ?t = length cps"
    by (simp add: l length_winners_z)
  have 3: "\<forall>k<length cps.
              cps ! k = current_player (fst (tr ! k)) \<and>
              current_state (fst (tr ! k)) = Inr (sts ! k) \<and>
              prs ! k = snd (fst (get_action (snd (tr ! k)) (fst (tr ! k)))) \<and>
              ?t ! k = (sts ! k, prs ! k,
                (if winner = -1 then 0
                 else if current_player (fst (tr ! k)) = winner then 1 else -1))"
  proof (intro allI impI)
    fix k assume k: "k < length cps"
    then have kt: "k < length tr" using l by simp
    have c: "cps ! k = current_player (fst (tr ! k))"
      using kt by (simp add: tr(8) case_prod_beta)
    have p: "prs ! k = snd (fst (get_action (snd (tr ! k)) (fst (tr ! k))))"
      using kt by (simp add: tr(7) case_prod_beta)
    have s: "current_state (fst (tr ! k)) = Inr (sts ! k)"
      using tr(5,6) kt by simp
    have "?t ! k = (sts ! k, prs ! k, (if winner = -1 then 0 else if cps ! k = winner then 1 else -1))"
      using k by (simp add: l length_winners_z nth_winners_z)
    with c p s show "cps ! k = current_player (fst (tr ! k)) \<and>
              current_state (fst (tr ! k)) = Inr (sts ! k) \<and>
              prs ! k = snd (fst (get_action (snd (tr ! k)) (fst (tr ! k)))) \<and>
              ?t ! k = (sts ! k, prs ! k,
                (if winner = -1 then 0
                 else if current_player (fst (tr ! k)) = winner then 1 else -1))"
      by simp
  qed
  from 1 2 3 l(3) tr(2,3) show ?thesis by blast
qed

lemma self_play_loop_script:
  "self_play_loop moved scripted self_play_script board5 [] [] []
     = Inr (1, self_play_states, [(), (), (), (), (), (), (), (), ()],
            [1, 2, 1, 2, 1, 2, 1, 2, 1])"
  by code_simp

theorem self_play_labels_witness:
  "init_board (Board 5 5 5) 0 = Inr board5 \<and>
   self_play_loop moved scripted self_play_script board5 [] [] []
     = Inr (1, self_play_states, [(), (), (), (), (), (), (), (), ()],
            [1, 2, 1, 2, 1, 2, 1, 2, 1]) \<and>
   (\<exists>triples tr. start_self_play moved scripted self_play_script (Board 5 5 5)
                 = Inr (1, triples) \<and>
      length triples = 9 \<and> length tr = 9 \<and> hd tr = (board5, self_play_script) \<and>
      episode moved scripted tr 1 \<and>
      current_player (fst (tr ! 0)) = 1 \<and> snd (snd (triples ! 0)) = 1 \<and>
      current_player (fst (tr ! 7)) = 2 \<and> snd (snd (triples ! 7)) = -1 \<and>
      current_player (fst (tr ! 8)) = 1 \<and> snd (snd (triples ! 8)) = 1)"
proof -
  let ?cps = "[1, 2, 1, 2, 1, 2, 1, 2, 1] :: int list"
  let ?prs = "[(), (), (), (), (), (), (), (), ()]"
  from self_play_labels [OF init_board5 self_play_loop_script]
  obtain triples tr where t: "start_self_play moved scripted self_play_script (Board 5 5 5)
                 = Inr (1, triples)" "length triples = length ?cps" "length tr = length ?cps"
      "hd tr = (board5, self_play_script)" "episode moved scripted tr 1"
    and l: "\<forall>k<length ?cps.
              ?cps ! k = current_player (fst (tr ! k)) \<and>
              current_state (fst (tr ! k)) = Inr (self_play_states ! k) \<and>
              ?prs ! k = snd (fst (scripted (snd (tr ! k)) (fst (tr ! k)))) \<and>
              triples ! k = (self_play_states ! k, ?prs ! k,
                (if (1::int) = -1 then 0
                 else if current_player (fst (tr ! k)) = 1 then 1 else -1))"
    by blast
  from l [rule_format, of 0]
  have l0: "current_player (fst (tr ! 0)) = 1 \<and> snd (snd (triples ! 0)) = 1" by simp
  from l [rule_format, of 7]
  have l7: "current_player (fst (tr ! 7)) = 2 \<and> snd (snd (triples ! 7)) = -1" by simp
  from l [rule_format, of 8]
  have l8: "current_player (fst (tr ! 8)) = 1 \<and> snd (snd (triples ! 8)) = 1" by simp
  from t have "length triples = 9" "length tr = 9" by simp_all
  with t(1,4,5) l0 l7 l8 init_board5 self_play_loop_script show ?thesis by blast
qed

end
